theory Spec2Isabelle
  imports Main "HOL-Library.Word" "HOL-Library.Signed_Division"
begin

section \<open>Data model of package singlecache (timesf.go)\<close>

text \<open>
  Keys are Go strings. Pointers to \<open>call\<close> structs and channels are addresses handed out by
  two allocation counters. \<open>time.Duration\<close> and Unix timestamps are \<open>int64\<close>.
\<close>

type_synonym key = string
type_synonym addr = nat
type_synonym chan = nat
type_synonym tid = nat
type_synonym int64 = "64 word"

text \<open>\<open>type Result struct { Val interface{}; Err error; Shared bool }\<close>; \<open>nil\<close> is \<open>None\<close>.\<close>

record ('v, 'e) Result =
  Val :: "'v option"
  Err :: "'e option"
  Shared :: bool

text \<open>
  \<open>type call struct\<close>. The wait group is its counter. \<open>dups\<close> is a Go \<open>int\<close>; it is
  incremented once per joining caller, each of which holds a goroutine or a channel, so the
  64-bit bound is never reached and the field is an unbounded integer here.
\<close>

record ('v, 'e) call =
  wg :: nat
  val :: "'v option"
  err :: "'e option"
  forgotten :: bool
  dups :: int
  chans :: "chan list"

text \<open>The zero value that \<open>new(call)\<close> and \<open>&call{...}\<close> start from.\<close>

definition new_call :: "('v, 'e) call" where
  "new_call = \<lparr>wg = 0, val = None, err = None, forgotten = False, dups = 0, chans = []\<rparr>"

text \<open>
  \<open>type Group struct\<close>: the two maps, each \<open>nil\<close> (\<open>None\<close>) until lazily made. The mutex is
  not a field of the model: every section of code that runs between \<open>g.mu.Lock()\<close> and
  \<open>g.mu.Unlock()\<close> is one atomic function on the state.
\<close>

record Group =
  g_m :: "(key \<rightharpoonup> addr) option"
  g_t :: "(key \<rightharpoonup> int64) option"

definition zero_Group :: Group where
  "zero_Group = \<lparr>g_m = None, g_t = None\<rparr>"

text \<open>
  The operation \<open>fn func() (interface{}, error)\<close> is opaque and may have effects: it is a
  function on an outside world that returns the pair and the world after the call.
\<close>

type_synonym ('w, 'v, 'e) op = "'w \<Rightarrow> ('v option \<times> 'e option) \<times> 'w"

datatype fault = AssignNilMap | NegativeWaitGroup | SendBlocked | NotEnabled

subsection \<open>Go map operations on a possibly nil map\<close>

text \<open>\<open>v, ok := m[k]\<close>: a nil map reads as empty.\<close>

definition go_lookup :: "('k \<rightharpoonup> 'a) option \<Rightarrow> 'k \<Rightarrow> 'a option" where
  "go_lookup mo k = (case mo of None \<Rightarrow> None | Some f \<Rightarrow> f k)"

text \<open>\<open>delete(m, k)\<close>: a no-op on a nil map and on an absent key.\<close>

definition go_delete :: "'k \<Rightarrow> ('k \<rightharpoonup> 'a) option \<Rightarrow> ('k \<rightharpoonup> 'a) option" where
  "go_delete k mo = (case mo of None \<Rightarrow> None | Some f \<Rightarrow> Some (f(k := None)))"

text \<open>\<open>m[k] = v\<close>: panics on a nil map.\<close>

definition go_assign :: "'k \<Rightarrow> 'a \<Rightarrow> ('k \<rightharpoonup> 'a) option \<Rightarrow> fault + ('k \<rightharpoonup> 'a) option" where
  "go_assign k v mo = (case mo of None \<Rightarrow> Inl AssignNilMap | Some f \<Rightarrow> Inr (Some (f(k \<mapsto> v))))"

subsection \<open>Program state\<close>

text \<open>
  Where the one activation of \<open>doCall(c, key, fn)\<close> of a call stands: before line 111
  (\<open>fn()\<close>), before line 112 (\<open>c.wg.Done()\<close>), before line 114 (\<open>g.mu.Lock()\<close>), or returned.
\<close>

datatype stage = AtFn | AtDone | AtLock | Finished

text \<open>
  An activation holds the arguments \<open>key\<close> and \<open>fn\<close>, the stage, and a log of what every
  invocation of \<open>fn\<close> made by this activation has returned (the log is not program data: it
  only records the invocations so that they can be counted).
\<close>

record ('w, 'v, 'e) activation =
  akey :: key
  afn :: "('w, 'v, 'e) op"
  astage :: stage
  areturned :: "('v option \<times> 'e option) list"

text \<open>
  Callers: a \<open>Do\<close> that joined and blocks in \<open>c.wg.Wait()\<close> (line 63), a \<open>Do\<close> that created
  the call and is inside \<open>g.doCall\<close> (line 74), a \<open>Do\<close> that has returned its triple (the flag
  says whether it originated the call), a \<open>DoChan\<close> that has returned its channel.
\<close>

datatype ('v, 'e) pc =
    Waiting addr
  | InCall addr
  | Returned addr bool "('v, 'e) Result"
  | GotChan chan addr bool

text \<open>
  \<open>sent\<close> is the sequence of all channel sends so far, in program order. Every channel is
  made with capacity one and the receivers are outside the package, so a send on a channel
  that already holds a message does not complete.
\<close>

record ('w, 'v, 'e) state =
  world :: 'w
  grp :: Group
  heap :: "addr \<Rightarrow> ('v, 'e) call"
  nxt :: addr
  sent :: "(chan \<times> ('v, 'e) Result) list"
  nxtc :: chan
  act :: "addr \<rightharpoonup> ('w, 'v, 'e) activation"
  thr :: "tid \<rightharpoonup> ('v, 'e) pc"

definition init :: "'w \<Rightarrow> ('w, 'v, 'e) state" where
  "init w = \<lparr>world = w, grp = zero_Group, heap = (\<lambda>_. new_call), nxt = 0, sent = [], nxtc = 0,
     act = Map.empty, thr = Map.empty\<rparr>"

section \<open>The functions of timesf.go\<close>

subsection \<open>getValidTime (lines 138-146)\<close>

definition MaxInt64 :: int64 where
  "MaxInt64 = 0x7FFFFFFFFFFFFFFF"

definition Second :: int64 where
  "Second = 1000000000"

text \<open>Go's \<open>/\<close> on \<open>int64\<close> truncates towards zero.\<close>

definition go_div :: "int64 \<Rightarrow> int64 \<Rightarrow> int64" where
  "go_div a b = word_of_int (sint a sdiv sint b)"

text \<open>The second argument is what \<open>time.Now().Unix()\<close> returns at line 143.\<close>

definition getValidTime :: "int64 \<Rightarrow> int64 \<Rightarrow> int64" where
  "getValidTime validTime now =
     (if validTime = 0 then MaxInt64 else now + go_div validTime Second)"

subsection \<open>Do and DoChan under the lock (lines 51-72 and 81-102)\<close>

text \<open>Lines 52-55 and 83-86.\<close>

definition lazy_init :: "Group \<Rightarrow> Group" where
  "lazy_init g = (if g_m g = None then \<lparr>g_m = Some Map.empty, g_t = Some Map.empty\<rparr> else g)"

text \<open>
  Lines 56-60 and 87-91: the call to join, if any. \<open>now\<close> is the clock reading of line 58;
  \<open>t, _ := g.t[key]\<close> is zero for a missing key.
\<close>

definition expiry_of :: "Group \<Rightarrow> key \<Rightarrow> int64" where
  "expiry_of g key = (case go_lookup (g_t g) key of None \<Rightarrow> 0 | Some x \<Rightarrow> x)"

definition joinable :: "Group \<Rightarrow> key \<Rightarrow> int64 \<Rightarrow> addr option" where
  "joinable g key now =
     (case go_lookup (g_m g) key of
        None \<Rightarrow> None
      | Some c \<Rightarrow> (let t = expiry_of g key in if now <s t then Some c else None))"

datatype attach = Joined addr | Created addr

text \<open>Lines 67-71: store the new call and its expiry; \<open>now'\<close> is the clock reading of line 143.\<close>

definition register :: "key \<Rightarrow> addr \<Rightarrow> int64 \<Rightarrow> int64 \<Rightarrow> Group \<Rightarrow> fault + Group" where
  "register key c validTime now' g =
     (case go_assign key c (g_m g) of
        Inl f \<Rightarrow> Inl f
      | Inr m' \<Rightarrow>
          (case go_assign key (getValidTime validTime now') (g_t g) of
             Inl f \<Rightarrow> Inl f
           | Inr t' \<Rightarrow> Inr \<lparr>g_m = m', g_t = t'\<rparr>))"

definition Do_lock ::
  "key \<Rightarrow> int64 \<Rightarrow> int64 \<Rightarrow> int64 \<Rightarrow> ('w, 'v, 'e) state \<Rightarrow> fault + (attach \<times> ('w, 'v, 'e) state)" where
  "Do_lock key validTime now now' s =
     (let g = lazy_init (grp s) in
      case joinable g key now of
        Some c \<Rightarrow>
          Inr (Joined c,
               s\<lparr>grp := g, heap := (heap s)(c := (heap s c)\<lparr>dups := dups (heap s c) + 1\<rparr>)\<rparr>)
      | None \<Rightarrow>
          (let c = nxt s in
           case register key c validTime now' g of
             Inl f \<Rightarrow> Inl f
           | Inr g' \<Rightarrow>
               Inr (Created c,
                    s\<lparr>grp := g', heap := (heap s)(c := new_call\<lparr>wg := 1\<rparr>), nxt := Suc c\<rparr>)))"

definition DoChan_lock ::
  "key \<Rightarrow> int64 \<Rightarrow> int64 \<Rightarrow> int64 \<Rightarrow> ('w, 'v, 'e) state \<Rightarrow>
     fault + (chan \<times> attach \<times> ('w, 'v, 'e) state)" where
  "DoChan_lock key validTime now now' s =
     (let ch = nxtc s; g = lazy_init (grp s) in
      case joinable g key now of
        Some c \<Rightarrow>
          Inr (ch, Joined c,
               s\<lparr>grp := g, nxtc := Suc ch,
                 heap := (heap s)(c := (heap s c)\<lparr>dups := dups (heap s c) + 1,
                                                  chans := chans (heap s c) @ [ch]\<rparr>)\<rparr>)
      | None \<Rightarrow>
          (let c = nxt s in
           case register key c validTime now' g of
             Inl f \<Rightarrow> Inl f
           | Inr g' \<Rightarrow>
               Inr (ch, Created c,
                    s\<lparr>grp := g', nxtc := Suc ch,
                      heap := (heap s)(c := new_call\<lparr>chans := [ch], wg := 1\<rparr>), nxt := Suc c\<rparr>)))"

subsection \<open>doCall (lines 110-123)\<close>

text \<open>Line 111: \<open>c.val, c.err = fn()\<close>.\<close>

definition doCall_fn :: "addr \<Rightarrow> ('w, 'v, 'e) op \<Rightarrow> ('w, 'v, 'e) state \<Rightarrow> ('w, 'v, 'e) state" where
  "doCall_fn c fn s =
     (case fn (world s) of
        ((v, e), w') \<Rightarrow> s\<lparr>world := w', heap := (heap s)(c := (heap s c)\<lparr>val := v, err := e\<rparr>)\<rparr>)"

text \<open>Line 112: \<open>c.wg.Done()\<close>, which panics on a counter that is already zero.\<close>

definition doCall_done :: "addr \<Rightarrow> ('w, 'v, 'e) state \<Rightarrow> fault + ('w, 'v, 'e) state" where
  "doCall_done c s =
     (if wg (heap s c) = 0 then Inl NegativeWaitGroup
      else Inr (s\<lparr>heap := (heap s)(c := (heap s c)\<lparr>wg := wg (heap s c) - 1\<rparr>)\<rparr>))"

text \<open>Lines 119-121: \<open>for _, ch := range c.chans { ch <- Result{c.val, c.err, c.dups > 0} }\<close>.\<close>

fun deliver ::
  "chan list \<Rightarrow> ('v, 'e) call \<Rightarrow> (chan \<times> ('v, 'e) Result) list \<Rightarrow>
     fault + (chan \<times> ('v, 'e) Result) list" where
  "deliver [] c q = Inr q"
| "deliver (ch # chs) c q =
     (if ch \<in> fst ` set q then Inl SendBlocked
      else deliver chs c (q @ [(ch, \<lparr>Val = val c, Err = err c, Shared = (dups c > 0)\<rparr>)]))"

text \<open>Lines 114-122, the locked section.\<close>

definition doCall_lock :: "addr \<Rightarrow> key \<Rightarrow> ('w, 'v, 'e) state \<Rightarrow> fault + ('w, 'v, 'e) state" where
  "doCall_lock c key s =
     (let g = (if \<not> forgotten (heap s c)
               then \<lparr>g_m = go_delete key (g_m (grp s)), g_t = go_delete key (g_t (grp s))\<rparr>
               else grp s)
      in case deliver (chans (heap s c)) (heap s c) (sent s) of
           Inl f \<Rightarrow> Inl f
         | Inr q \<Rightarrow> Inr (s\<lparr>grp := g, sent := q\<rparr>))"

subsection \<open>Forget (lines 127-135)\<close>

definition Forget :: "key \<Rightarrow> ('w, 'v, 'e) state \<Rightarrow> ('w, 'v, 'e) state" where
  "Forget key s =
     (let h = (case go_lookup (g_m (grp s)) key of
                 Some c \<Rightarrow> (heap s)(c := (heap s c)\<lparr>forgotten := True\<rparr>)
               | None \<Rightarrow> heap s)
      in s\<lparr>heap := h,
           grp := \<lparr>g_m = go_delete key (g_m (grp s)), g_t = go_delete key (g_t (grp s))\<rparr>\<rparr>)"

section \<open>Interleaved executions\<close>

text \<open>
  One event is one atomic step of one goroutine: a call of \<open>Do\<close> or \<open>DoChan\<close> up to its
  unlock (with the two clock readings it takes), a call of \<open>Forget\<close>, the next statement of
  the \<open>doCall\<close> of a call, or the return of a \<open>Do\<close> (after \<open>c.wg.Wait()\<close> at line 63, or
  after \<open>g.doCall\<close> at line 76).
\<close>

datatype ('w, 'v, 'e) event =
    EDo tid key int64 "('w, 'v, 'e) op" int64 int64
  | EDoChan tid key int64 "('w, 'v, 'e) op" int64 int64
  | EForget key
  | ECall addr
  | EReturn tid

definition start :: "key \<Rightarrow> ('w, 'v, 'e) op \<Rightarrow> ('w, 'v, 'e) activation" where
  "start key fn = \<lparr>akey = key, afn = fn, astage = AtFn, areturned = []\<rparr>"

definition result_of :: "('v, 'e) call \<Rightarrow> bool \<Rightarrow> ('v, 'e) Result" where
  "result_of c sh = \<lparr>Val = val c, Err = err c, Shared = sh\<rparr>"

fun step :: "('w, 'v, 'e) event \<Rightarrow> ('w, 'v, 'e) state \<Rightarrow> fault + ('w, 'v, 'e) state" where
  "step (EDo i key d fn now now') s =
     (if thr s i \<noteq> None then Inl NotEnabled
      else case Do_lock key d now now' s of
             Inl f \<Rightarrow> Inl f
           | Inr (Joined c, s') \<Rightarrow> Inr (s'\<lparr>thr := (thr s')(i \<mapsto> Waiting c)\<rparr>)
           | Inr (Created c, s') \<Rightarrow>
               Inr (s'\<lparr>thr := (thr s')(i \<mapsto> InCall c), act := (act s')(c \<mapsto> start key fn)\<rparr>))"
| "step (EDoChan i key d fn now now') s =
     (if thr s i \<noteq> None then Inl NotEnabled
      else case DoChan_lock key d now now' s of
             Inl f \<Rightarrow> Inl f
           | Inr (ch, Joined c, s') \<Rightarrow> Inr (s'\<lparr>thr := (thr s')(i \<mapsto> GotChan ch c False)\<rparr>)
           | Inr (ch, Created c, s') \<Rightarrow>
               Inr (s'\<lparr>thr := (thr s')(i \<mapsto> GotChan ch c True),
                       act := (act s')(c \<mapsto> start key fn)\<rparr>))"
| "step (EForget key) s = Inr (Forget key s)"
| "step (ECall c) s =
     (case act s c of
        None \<Rightarrow> Inl NotEnabled
      | Some a \<Rightarrow>
          (case astage a of
             AtFn \<Rightarrow>
               Inr ((doCall_fn c (afn a) s)\<lparr>act := (act s)(c \<mapsto>
                      a\<lparr>astage := AtDone,
                        areturned := areturned a @ [fst (afn a (world s))]\<rparr>)\<rparr>)
           | AtDone \<Rightarrow>
               (case doCall_done c s of
                  Inl f \<Rightarrow> Inl f
                | Inr s' \<Rightarrow> Inr (s'\<lparr>act := (act s)(c \<mapsto> a\<lparr>astage := AtLock\<rparr>)\<rparr>))
           | AtLock \<Rightarrow>
               (case doCall_lock c (akey a) s of
                  Inl f \<Rightarrow> Inl f
                | Inr s' \<Rightarrow> Inr (s'\<lparr>act := (act s)(c \<mapsto> a\<lparr>astage := Finished\<rparr>)\<rparr>))
           | Finished \<Rightarrow> Inl NotEnabled))"
| "step (EReturn i) s =
     (case thr s i of
        Some (Waiting c) \<Rightarrow>
          (if wg (heap s c) = 0
           then Inr (s\<lparr>thr := (thr s)(i \<mapsto> Returned c False (result_of (heap s c) True))\<rparr>)
           else Inl NotEnabled)
      | Some (InCall c) \<Rightarrow>
          (case act s c of
             Some a \<Rightarrow>
               (if astage a = Finished
                then Inr (s\<lparr>thr := (thr s)(i \<mapsto>
                            Returned c True (result_of (heap s c) (dups (heap s c) > 0)))\<rparr>)
                else Inl NotEnabled)
           | None \<Rightarrow> Inl NotEnabled)
      | _ \<Rightarrow> Inl NotEnabled)"

fun run :: "('w, 'v, 'e) event list \<Rightarrow> ('w, 'v, 'e) state \<Rightarrow> fault + ('w, 'v, 'e) state" where
  "run [] s = Inr s"
| "run (e # es) s = (case step e s of Inl f \<Rightarrow> Inl f | Inr s' \<Rightarrow> run es s')"


section \<open>Invariants of executions\<close>

text \<open>The two maps are nil together and have the same keys.\<close>

definition reg_ok :: "Group \<Rightarrow> bool" where
  "reg_ok g \<longleftrightarrow>
     (g_m g = None) = (g_t g = None) \<and>
     (\<forall>k. (go_lookup (g_m g) k = None) = (go_lookup (g_t g) k = None))"

text \<open>
  The calls that have an activation are the allocated ones, and a registered call is
  allocated, not forgotten, registered under the key of its activation, and its \<open>doCall\<close>
  has not yet run its locked section.
\<close>

definition inv_reg :: "('w, 'v, 'e) state \<Rightarrow> bool" where
  "inv_reg s \<longleftrightarrow>
     reg_ok (grp s) \<and>
     (\<forall>c. (act s c \<noteq> None) = (c < nxt s)) \<and>
     (\<forall>k c. go_lookup (g_m (grp s)) k = Some c \<longrightarrow>
        \<not> forgotten (heap s c) \<and>
        (\<exists>a. act s c = Some a \<and> akey a = k \<and> astage a \<noteq> Finished))"

text \<open>
  The wait group counter is one until line 112 has run; the log of an activation is empty
  before line 111 and afterwards holds the one pair that \<open>c.val\<close> and \<open>c.err\<close> hold.
\<close>

definition inv_call :: "('w, 'v, 'e) state \<Rightarrow> bool" where
  "inv_call s \<longleftrightarrow>
     (\<forall>c. 0 \<le> dups (heap s c)) \<and>
     (\<forall>c a. act s c = Some a \<longrightarrow>
        wg (heap s c) = (if astage a = AtFn \<or> astage a = AtDone then 1 else 0) \<and>
        areturned a = (if astage a = AtFn then [] else [(val (heap s c), err (heap s c))]))"

text \<open>What holds of a caller, by where it stands.\<close>

definition pc_ok :: "('w, 'v, 'e) state \<Rightarrow> ('v, 'e) pc \<Rightarrow> bool" where
  "pc_ok s p =
     (case p of
        Waiting c \<Rightarrow> act s c \<noteq> None \<and> 0 < dups (heap s c)
      | InCall c \<Rightarrow> act s c \<noteq> None
      | Returned c orig r \<Rightarrow>
          (\<exists>a. act s c = Some a \<and> (astage a = Finished \<or> (\<not> orig \<and> astage a = AtLock))) \<and>
          Val r = val (heap s c) \<and> Err r = err (heap s c) \<and>
          (if orig then Shared r = (0 < dups (heap s c)) else Shared r \<and> 0 < dups (heap s c))
      | GotChan ch c orig \<Rightarrow>
          act s c \<noteq> None \<and> ch \<in> set (chans (heap s c)) \<and> (\<not> orig \<longrightarrow> 0 < dups (heap s c)))"

text \<open>A caller that joined call \<open>c\<close> rather than creating it.\<close>

definition joiner :: "('v, 'e) pc option \<Rightarrow> addr \<Rightarrow> bool" where
  "joiner p c =
     (case p of
        Some (Waiting c') \<Rightarrow> c' = c
      | Some (Returned c' orig r) \<Rightarrow> c' = c \<and> \<not> orig
      | Some (GotChan ch c' orig) \<Rightarrow> c' = c \<and> \<not> orig
      | _ \<Rightarrow> False)"

definition inv_thr :: "('w, 'v, 'e) state \<Rightarrow> bool" where
  "inv_thr s \<longleftrightarrow>
     (\<forall>i p. thr s i = Some p \<longrightarrow> pc_ok s p) \<and>
     (\<forall>c. 0 < dups (heap s c) \<longrightarrow> (\<exists>i. joiner (thr s i) c))"

text \<open>
  Channels are allocated, no channel is registered twice, and the messages sent so far are
  exactly the results of the finished calls, one on each of their channels.
\<close>

definition inv_chan :: "('w, 'v, 'e) state \<Rightarrow> bool" where
  "inv_chan s \<longleftrightarrow>
     (\<forall>c ch. ch \<in> set (chans (heap s c)) \<longrightarrow> ch < nxtc s) \<and>
     (\<forall>c. distinct (chans (heap s c))) \<and>
     (\<forall>c c'. c \<noteq> c' \<longrightarrow> set (chans (heap s c)) \<inter> set (chans (heap s c')) = {}) \<and>
     distinct (map fst (sent s)) \<and>
     (\<forall>ch r. (ch, r) \<in> set (sent s) \<longrightarrow>
        (\<exists>c a. act s c = Some a \<and> astage a = Finished \<and> ch \<in> set (chans (heap s c)) \<and>
               r = result_of (heap s c) (0 < dups (heap s c)))) \<and>
     (\<forall>c a ch. act s c = Some a \<and> astage a = Finished \<and> ch \<in> set (chans (heap s c)) \<longrightarrow>
        (ch, result_of (heap s c) (0 < dups (heap s c))) \<in> set (sent s))"

definition inv_all :: "('w, 'v, 'e) state \<Rightarrow> bool" where
  "inv_all s \<longleftrightarrow> inv_reg s \<and> inv_call s \<and> inv_thr s \<and> inv_chan s"

section \<open>Operations used in the examples\<close>

text \<open>
  The outside world of the examples counts the invocations of operations. \<open>op_bar\<close> is
  the operation of \<open>TestDo\<close> (returns \<open>"bar", nil\<close>), \<open>op_err\<close> the one of \<open>TestDoErr\<close>
  (returns \<open>nil, someErr\<close>), and \<open>op_both\<close> returns a value together with an error.
\<close>

definition op_bar :: "(nat, string, string) op" where
  "op_bar w = ((Some ''bar'', None), Suc w)"





















definition forget_before_events :: "(nat, string, string) event list" where
  "forget_before_events =
    [EDo 0 ''key'' 100000000000 op_bar 100 100, EDo 3 ''key'' 100000000000 op_bar 100 100,
     EDoChan 4 ''key'' 100000000000 op_bar 100 100]"

definition forget_before_state :: "(nat, string, string) state" where
  "forget_before_state = projr (run forget_before_events (init 0))"

definition forget_after_events :: "(nat, string, string) event list" where
  "forget_after_events = [EDo 1 ''key'' 100000000000 op_bar 100 100, ECall 0, ECall 0]"

definition forget_after_state :: "(nat, string, string) state" where
  "forget_after_state = projr (run forget_after_events (Forget ''key'' forget_before_state))"

section \<open>Facts about the clock arithmetic\<close>

lemma max_sless: "now \<noteq> MaxInt64 \<Longrightarrow> now <s MaxInt64"
proof -
  assume a: "now \<noteq> MaxInt64"
  have "sint now < 2 ^ 63" using sint_lt[of now] by simp
  moreover have "sint MaxInt64 = 2 ^ 63 - 1" by (simp add: MaxInt64_def)
  moreover have "sint now \<noteq> sint MaxInt64" using a signed_word_eqI[of now MaxInt64] by blast
  ultimately show ?thesis by (simp add: word_sless_alt)
qed

lemma max_not_sless: "\<not> MaxInt64 <s (t::int64)"
proof -
  have "sint t < 2 ^ 63" using sint_lt[of t] by simp
  moreover have "sint MaxInt64 = 2 ^ 63 - 1" by (simp add: MaxInt64_def)
  ultimately show ?thesis by (simp add: word_sless_alt)
qed

lemma sdiv_bounds:
  fixes k :: int
  assumes "- (2 ^ 63) \<le> k" "k < 2 ^ 63"
  shows "- (2 ^ 63) \<le> k sdiv 1000000000 \<and> k sdiv 1000000000 < 2 ^ 63"
proof -
  have "\<bar>k\<bar> div 1000000000 \<le> \<bar>k\<bar>"
    using zdiv_mono2[of "\<bar>k\<bar>" 1 1000000000] by simp
  have "0 \<le> \<bar>k\<bar> div 1000000000" by simp
  then show ?thesis using assms
    by (cases "k < 0") (auto simp: signed_divide_int_def sgn_if)
qed

lemma sint_go_div_Second: "sint (go_div d Second) = sint d sdiv 1000000000"
proof -
  have r: "- (2 ^ 63) \<le> sint d \<and> sint d < 2 ^ 63"
    using sint_ge[of d] sint_lt[of d] by simp
  have "sint (go_div d Second) = signed_take_bit 63 (sint d sdiv 1000000000)"
    by (simp add: go_div_def Second_def sint_sbintrunc')
  also have "\<dots> = sint d sdiv 1000000000"
    using sdiv_bounds[of "sint d"] r by (simp add: signed_take_bit_int_eq_self)
  finally show ?thesis .
qed

lemma sint_getValidTime:
  assumes "d \<noteq> 0"
    and "- (2 ^ 63) \<le> sint now + sint d sdiv 1000000000"
    and "sint now + sint d sdiv 1000000000 < 2 ^ 63"
  shows "sint (getValidTime d now) = sint now + sint d sdiv 1000000000"
proof -
  have "sint (getValidTime d now) = signed_take_bit 63 (sint now + sint (go_div d Second))"
    using assms(1) by (simp add: getValidTime_def sint_word_ariths)
  also have "\<dots> = sint now + sint d sdiv 1000000000"
    using assms(2,3) by (simp add: sint_go_div_Second signed_take_bit_int_eq_self)
  finally show ?thesis .
qed

lemma go_div_small:
  "- 1000000000 < sint d \<Longrightarrow> sint d < 1000000000 \<Longrightarrow> go_div d Second = 0"
  by (simp add: go_div_def Second_def signed_divide_int_def)

section \<open>Facts about the map operations and the locked sections\<close>

lemma go_lookup_delete [simp]:
  "go_lookup (go_delete k mo) k' = (if k' = k then None else go_lookup mo k')"
  by (simp add: go_lookup_def go_delete_def split: option.splits)

lemma go_delete_eq_None [simp]: "(go_delete k mo = None) = (mo = None)"
  by (simp add: go_delete_def split: option.splits)

lemma go_delete_absent: "go_lookup mo k = None \<Longrightarrow> go_delete k mo = mo"
  by (auto simp: go_lookup_def go_delete_def split: option.splits)

lemma go_assign_Inr:
  "go_assign k v mo = Inr mo' \<Longrightarrow>
     mo \<noteq> None \<and> mo' \<noteq> None \<and> (\<forall>k'. go_lookup mo' k' = (if k' = k then Some v else go_lookup mo k'))"
  by (auto simp: go_assign_def go_lookup_def split: option.splits)

lemma go_assign_ok: "mo \<noteq> None \<Longrightarrow> \<exists>mo'. go_assign k v mo = Inr mo'"
  by (auto simp: go_assign_def split: option.splits)

lemma go_lookup_None [simp]: "go_lookup None k = None"
  by (simp add: go_lookup_def)

lemma lazy_init_lookup_m [simp]: "go_lookup (g_m (lazy_init g)) k = go_lookup (g_m g) k"
  by (simp add: lazy_init_def go_lookup_def)

lemma lazy_init_not_nil [simp]: "g_m (lazy_init g) \<noteq> None"
  by (simp add: lazy_init_def)

lemma lazy_init_id: "g_m g \<noteq> None \<Longrightarrow> lazy_init g = g"
  by (auto simp: lazy_init_def)

lemma joinable_lazy_init [simp]: "joinable (lazy_init g) key now = joinable g key now"
  by (cases "g_m g = None") (simp_all add: lazy_init_id joinable_def)

lemma joinable_Some:
  "(joinable g key now = Some c) =
     (go_lookup (g_m g) key = Some c \<and> now <s expiry_of g key)"
  by (simp add: joinable_def Let_def split: option.splits)

lemma joinable_None:
  "(joinable g key now = None) =
     (go_lookup (g_m g) key = None \<or> \<not> now <s expiry_of g key)"
  by (simp add: joinable_def Let_def split: option.splits)

lemma register_Inr:
  "register key c d now' g = Inr g' \<Longrightarrow>
     g_m g' \<noteq> None \<and> g_t g' \<noteq> None \<and>
     (\<forall>k. go_lookup (g_m g') k = (if k = key then Some c else go_lookup (g_m g) k)) \<and>
     (\<forall>k. go_lookup (g_t g') k = (if k = key then Some (getValidTime d now') else go_lookup (g_t g) k))"
  by (auto simp: register_def split: sum.splits dest!: go_assign_Inr)

lemma register_ok:
  "g_m g \<noteq> None \<Longrightarrow> g_t g \<noteq> None \<Longrightarrow> \<exists>g'. register key c d now' g = Inr g'"
  by (auto simp: register_def go_assign_def split: sum.splits option.splits)

lemma reg_ok_lazy_init: "reg_ok g \<Longrightarrow> reg_ok (lazy_init g) \<and> g_t (lazy_init g) \<noteq> None"
  by (auto simp: reg_ok_def lazy_init_def go_lookup_def)

lemma reg_ok_lazy_init_t:
  "reg_ok g \<Longrightarrow> go_lookup (g_t (lazy_init g)) k = go_lookup (g_t g) k"
  by (auto simp: reg_ok_def lazy_init_def go_lookup_def)

lemma reg_ok_register: "reg_ok g \<Longrightarrow> register key c d now' g = Inr g' \<Longrightarrow> reg_ok g'"
  by (drule register_Inr) (auto simp: reg_ok_def)

lemma reg_ok_delete:
  "reg_ok g \<Longrightarrow> reg_ok \<lparr>g_m = go_delete k (g_m g), g_t = go_delete k (g_t g)\<rparr>"
  by (auto simp: reg_ok_def)

lemma Do_lock_Inr:
  assumes "Do_lock key d now now' s = Inr (a, s')" and "reg_ok (grp s)"
  shows "(\<exists>c. a = Joined c \<and> go_lookup (g_m (grp s)) key = Some c \<and> now <s expiry_of (grp s) key \<and>
            s' = s\<lparr>heap := (heap s)(c := (heap s c)\<lparr>dups := dups (heap s c) + 1\<rparr>)\<rparr>) \<or>
         (\<exists>g'. a = Created (nxt s) \<and> joinable (grp s) key now = None \<and>
            register key (nxt s) d now' (lazy_init (grp s)) = Inr g' \<and>
            s' = s\<lparr>grp := g', heap := (heap s)(nxt s := new_call\<lparr>wg := 1\<rparr>), nxt := Suc (nxt s)\<rparr>)"
proof (cases "joinable (grp s) key now")
  case None
  then show ?thesis using assms(1)
    by (auto simp: Do_lock_def Let_def split: sum.splits)
next
  case (Some c)
  then have "g_m (grp s) \<noteq> None"
    by (auto simp: joinable_Some go_lookup_def split: option.splits)
  then have "lazy_init (grp s) = grp s" by (rule lazy_init_id)
  then show ?thesis using assms(1) Some
    by (auto simp: Do_lock_def Let_def joinable_Some)
qed

lemma DoChan_lock_Inr:
  assumes "DoChan_lock key d now now' s = Inr (ch, a, s')" and "reg_ok (grp s)"
  shows "ch = nxtc s \<and>
        ((\<exists>c. a = Joined c \<and> go_lookup (g_m (grp s)) key = Some c \<and> now <s expiry_of (grp s) key \<and>
            s' = s\<lparr>nxtc := Suc (nxtc s),
                   heap := (heap s)(c := (heap s c)\<lparr>dups := dups (heap s c) + 1,
                                                    chans := chans (heap s c) @ [nxtc s]\<rparr>)\<rparr>) \<or>
         (\<exists>g'. a = Created (nxt s) \<and> joinable (grp s) key now = None \<and>
            register key (nxt s) d now' (lazy_init (grp s)) = Inr g' \<and>
            s' = s\<lparr>grp := g', nxtc := Suc (nxtc s),
                   heap := (heap s)(nxt s := new_call\<lparr>chans := [nxtc s], wg := 1\<rparr>),
                   nxt := Suc (nxt s)\<rparr>))"
proof (cases "joinable (grp s) key now")
  case None
  then show ?thesis using assms(1)
    by (auto simp: DoChan_lock_def Let_def split: sum.splits)
next
  case (Some c)
  then have "g_m (grp s) \<noteq> None"
    by (auto simp: joinable_Some go_lookup_def split: option.splits)
  then have "lazy_init (grp s) = grp s" by (rule lazy_init_id)
  then show ?thesis using assms(1) Some
    by (auto simp: DoChan_lock_def Let_def joinable_Some)
qed

lemma register_lazy_init:
  assumes "register key c d now' (lazy_init g) = Inr g'" and "reg_ok g"
  shows "reg_ok g' \<and>
     (\<forall>k. go_lookup (g_m g') k = (if k = key then Some c else go_lookup (g_m g) k)) \<and>
     (\<forall>k. go_lookup (g_t g') k = (if k = key then Some (getValidTime d now') else go_lookup (g_t g) k))"
  using register_Inr[OF assms(1)] reg_ok_register[OF _ assms(1)] reg_ok_lazy_init[OF assms(2)]
    reg_ok_lazy_init_t[OF assms(2)]
  by simp

section \<open>The steps of an execution, case by case\<close>

lemma inv_init: "inv_all (init w)"
  by (simp add: inv_all_def inv_reg_def inv_call_def inv_thr_def inv_chan_def init_def reg_ok_def zero_Group_def new_call_def go_lookup_def)

lemma step_EDo:
  assumes "step (EDo i key d fn now now') s = Inr s'" and "reg_ok (grp s)"
  shows "thr s i = None \<and>
    ((\<exists>c. go_lookup (g_m (grp s)) key = Some c \<and> now <s expiry_of (grp s) key \<and>
        s' = s\<lparr>heap := (heap s)(c := (heap s c)\<lparr>dups := dups (heap s c) + 1\<rparr>),
               thr := (thr s)(i \<mapsto> Waiting c)\<rparr>) \<or>
     (\<exists>g'. joinable (grp s) key now = None \<and> reg_ok g' \<and>
        (\<forall>k. go_lookup (g_m g') k = (if k = key then Some (nxt s) else go_lookup (g_m (grp s)) k)) \<and>
        (\<forall>k. go_lookup (g_t g') k =
              (if k = key then Some (getValidTime d now') else go_lookup (g_t (grp s)) k)) \<and>
        s' = s\<lparr>grp := g', heap := (heap s)(nxt s := new_call\<lparr>wg := 1\<rparr>), nxt := Suc (nxt s),
               thr := (thr s)(i \<mapsto> InCall (nxt s)), act := (act s)(nxt s \<mapsto> start key fn)\<rparr>))"
proof -
  from assms(1) have i: "thr s i = None"
    by (simp split: if_splits)
  with assms(1) obtain a s1 where l: "Do_lock key d now now' s = Inr (a, s1)"
    by (auto split: sum.splits)
  from Do_lock_Inr[OF l assms(2)] show ?thesis
  proof (elim disjE exE conjE)
    fix c
    assume "a = Joined c" "go_lookup (g_m (grp s)) key = Some c" "now <s expiry_of (grp s) key"
      "s1 = s\<lparr>heap := (heap s)(c := (heap s c)\<lparr>dups := dups (heap s c) + 1\<rparr>)\<rparr>"
    then show ?thesis using assms(1) i l by auto
  next
    fix g'
    assume "a = Created (nxt s)" "joinable (grp s) key now = None"
      and r: "register key (nxt s) d now' (lazy_init (grp s)) = Inr g'"
      and "s1 = s\<lparr>grp := g', heap := (heap s)(nxt s := new_call\<lparr>wg := 1\<rparr>), nxt := Suc (nxt s)\<rparr>"
    then show ?thesis using assms(1) i l register_lazy_init[OF r assms(2)] by auto
  qed
qed

lemma step_EDoChan:
  assumes "step (EDoChan i key d fn now now') s = Inr s'" and "reg_ok (grp s)"
  shows "thr s i = None \<and>
    ((\<exists>c. go_lookup (g_m (grp s)) key = Some c \<and> now <s expiry_of (grp s) key \<and>
        s' = s\<lparr>nxtc := Suc (nxtc s),
               heap := (heap s)(c := (heap s c)\<lparr>dups := dups (heap s c) + 1,
                                                chans := chans (heap s c) @ [nxtc s]\<rparr>),
               thr := (thr s)(i \<mapsto> GotChan (nxtc s) c False)\<rparr>) \<or>
     (\<exists>g'. joinable (grp s) key now = None \<and> reg_ok g' \<and>
        (\<forall>k. go_lookup (g_m g') k = (if k = key then Some (nxt s) else go_lookup (g_m (grp s)) k)) \<and>
        (\<forall>k. go_lookup (g_t g') k =
              (if k = key then Some (getValidTime d now') else go_lookup (g_t (grp s)) k)) \<and>
        s' = s\<lparr>grp := g', nxtc := Suc (nxtc s),
               heap := (heap s)(nxt s := new_call\<lparr>chans := [nxtc s], wg := 1\<rparr>),
               nxt := Suc (nxt s),
               thr := (thr s)(i \<mapsto> GotChan (nxtc s) (nxt s) True),
               act := (act s)(nxt s \<mapsto> start key fn)\<rparr>))"
proof -
  from assms(1) have i: "thr s i = None"
    by (simp split: if_splits)
  with assms(1) obtain ch a s1 where l: "DoChan_lock key d now now' s = Inr (ch, a, s1)"
    by (auto split: sum.splits)
  from DoChan_lock_Inr[OF l assms(2)] show ?thesis
  proof (elim disjE exE conjE)
    fix c
    assume "ch = nxtc s" "a = Joined c" "go_lookup (g_m (grp s)) key = Some c"
      "now <s expiry_of (grp s) key"
      "s1 = s\<lparr>nxtc := Suc (nxtc s),
               heap := (heap s)(c := (heap s c)\<lparr>dups := dups (heap s c) + 1,
                                                chans := chans (heap s c) @ [nxtc s]\<rparr>)\<rparr>"
    then show ?thesis using assms(1) i l by auto
  next
    fix g'
    assume "ch = nxtc s" "a = Created (nxt s)" "joinable (grp s) key now = None"
      and r: "register key (nxt s) d now' (lazy_init (grp s)) = Inr g'"
      and "s1 = s\<lparr>grp := g', nxtc := Suc (nxtc s),
                   heap := (heap s)(nxt s := new_call\<lparr>chans := [nxtc s], wg := 1\<rparr>),
                   nxt := Suc (nxt s)\<rparr>"
    then show ?thesis using assms(1) i l register_lazy_init[OF r assms(2)] by auto
  qed
qed

lemma step_ECall:
  assumes "step (ECall c) s = Inr s'"
  shows "\<exists>a. act s c = Some a \<and>
    (astage a = AtFn \<and>
       s' = s\<lparr>world := snd (afn a (world s)),
              heap := (heap s)(c := (heap s c)\<lparr>val := fst (fst (afn a (world s))),
                                               err := snd (fst (afn a (world s)))\<rparr>),
              act := (act s)(c \<mapsto> a\<lparr>astage := AtDone,
                                     areturned := areturned a @ [fst (afn a (world s))]\<rparr>)\<rparr> \<or>
     astage a = AtDone \<and> wg (heap s c) \<noteq> 0 \<and>
       s' = s\<lparr>heap := (heap s)(c := (heap s c)\<lparr>wg := wg (heap s c) - 1\<rparr>),
              act := (act s)(c \<mapsto> a\<lparr>astage := AtLock\<rparr>)\<rparr> \<or>
     astage a = AtLock \<and>
       (\<exists>q. deliver (chans (heap s c)) (heap s c) (sent s) = Inr q \<and>
          s' = s\<lparr>grp := (if \<not> forgotten (heap s c)
                         then \<lparr>g_m = go_delete (akey a) (g_m (grp s)),
                               g_t = go_delete (akey a) (g_t (grp s))\<rparr>
                         else grp s),
                 sent := q,
                 act := (act s)(c \<mapsto> a\<lparr>astage := Finished\<rparr>)\<rparr>))"
  using assms
  by (auto simp: doCall_fn_def doCall_done_def doCall_lock_def Let_def
           split: option.splits stage.splits sum.splits prod.splits if_splits)

lemma step_EReturn:
  assumes "step (EReturn i) s = Inr s'"
  shows "(\<exists>c. thr s i = Some (Waiting c) \<and> wg (heap s c) = 0 \<and>
            s' = s\<lparr>thr := (thr s)(i \<mapsto> Returned c False (result_of (heap s c) True))\<rparr>) \<or>
         (\<exists>c a. thr s i = Some (InCall c) \<and> act s c = Some a \<and> astage a = Finished \<and>
            s' = s\<lparr>thr := (thr s)(i \<mapsto>
                     Returned c True (result_of (heap s c) (0 < dups (heap s c))))\<rparr>)"
  using assms
  by (auto split: option.splits pc.splits if_splits)

lemma Forget_eq:
  "Forget key s =
     s\<lparr>heap := (case go_lookup (g_m (grp s)) key of
                  Some c \<Rightarrow> (heap s)(c := (heap s c)\<lparr>forgotten := True\<rparr>)
                | None \<Rightarrow> heap s),
       grp := \<lparr>g_m = go_delete key (g_m (grp s)), g_t = go_delete key (g_t (grp s))\<rparr>\<rparr>"
  by (simp add: Forget_def Let_def)

lemma Forget_absent:
  assumes "go_lookup (g_m (grp s)) key = None" "go_lookup (g_t (grp s)) key = None"
  shows "Forget key s = s"
proof -
  have "go_delete key (g_m (grp s)) = g_m (grp s)" "go_delete key (g_t (grp s)) = g_t (grp s)"
    using assms by (simp_all add: go_delete_absent)
  then have "Forget key s = s\<lparr>heap := heap s, grp := \<lparr>g_m = g_m (grp s), g_t = g_t (grp s)\<rparr>\<rparr>"
    using assms(1) by (simp add: Forget_eq)
  then show ?thesis by simp
qed

lemma step_elim [consumes 2, case_names DoJoin DoCreate ChanJoin ChanCreate Forget ForgetNone
    CallFn CallDone CallLock RetJoin RetOrig]:
  assumes "step e s = Inr s'" and "reg_ok (grp s)"
  obtains
    (DoJoin) i key d fn now now' c where
      "e = EDo i key d fn now now'" "thr s i = None"
      "go_lookup (g_m (grp s)) key = Some c" "now <s expiry_of (grp s) key"
      "s' = s\<lparr>heap := (heap s)(c := (heap s c)\<lparr>dups := dups (heap s c) + 1\<rparr>),
               thr := (thr s)(i \<mapsto> Waiting c)\<rparr>"
  | (DoCreate) i key d fn now now' g' where
      "e = EDo i key d fn now now'" "thr s i = None"
      "joinable (grp s) key now = None" "reg_ok g'"
      "\<And>k. go_lookup (g_m g') k = (if k = key then Some (nxt s) else go_lookup (g_m (grp s)) k)"
      "\<And>k. go_lookup (g_t g') k =
            (if k = key then Some (getValidTime d now') else go_lookup (g_t (grp s)) k)"
      "s' = s\<lparr>grp := g', heap := (heap s)(nxt s := new_call\<lparr>wg := 1\<rparr>), nxt := Suc (nxt s),
               thr := (thr s)(i \<mapsto> InCall (nxt s)), act := (act s)(nxt s \<mapsto> start key fn)\<rparr>"
  | (ChanJoin) i key d fn now now' c where
      "e = EDoChan i key d fn now now'" "thr s i = None"
      "go_lookup (g_m (grp s)) key = Some c" "now <s expiry_of (grp s) key"
      "s' = s\<lparr>nxtc := Suc (nxtc s),
               heap := (heap s)(c := (heap s c)\<lparr>dups := dups (heap s c) + 1,
                                                chans := chans (heap s c) @ [nxtc s]\<rparr>),
               thr := (thr s)(i \<mapsto> GotChan (nxtc s) c False)\<rparr>"
  | (ChanCreate) i key d fn now now' g' where
      "e = EDoChan i key d fn now now'" "thr s i = None"
      "joinable (grp s) key now = None" "reg_ok g'"
      "\<And>k. go_lookup (g_m g') k = (if k = key then Some (nxt s) else go_lookup (g_m (grp s)) k)"
      "\<And>k. go_lookup (g_t g') k =
            (if k = key then Some (getValidTime d now') else go_lookup (g_t (grp s)) k)"
      "s' = s\<lparr>grp := g', nxtc := Suc (nxtc s),
               heap := (heap s)(nxt s := new_call\<lparr>chans := [nxtc s], wg := 1\<rparr>),
               nxt := Suc (nxt s),
               thr := (thr s)(i \<mapsto> GotChan (nxtc s) (nxt s) True),
               act := (act s)(nxt s \<mapsto> start key fn)\<rparr>"
  | (Forget) key c where
      "e = EForget key" "go_lookup (g_m (grp s)) key = Some c"
      "s' = s\<lparr>heap := (heap s)(c := (heap s c)\<lparr>forgotten := True\<rparr>),
               grp := \<lparr>g_m = go_delete key (g_m (grp s)), g_t = go_delete key (g_t (grp s))\<rparr>\<rparr>"
  | (ForgetNone) key where
      "e = EForget key" "go_lookup (g_m (grp s)) key = None" "s' = s"
  | (CallFn) c a where
      "e = ECall c" "act s c = Some a" "astage a = AtFn"
      "s' = s\<lparr>world := snd (afn a (world s)),
              heap := (heap s)(c := (heap s c)\<lparr>val := fst (fst (afn a (world s))),
                                               err := snd (fst (afn a (world s)))\<rparr>),
              act := (act s)(c \<mapsto> a\<lparr>astage := AtDone,
                                     areturned := areturned a @ [fst (afn a (world s))]\<rparr>)\<rparr>"
  | (CallDone) c a where
      "e = ECall c" "act s c = Some a" "astage a = AtDone" "wg (heap s c) \<noteq> 0"
      "s' = s\<lparr>heap := (heap s)(c := (heap s c)\<lparr>wg := wg (heap s c) - 1\<rparr>),
              act := (act s)(c \<mapsto> a\<lparr>astage := AtLock\<rparr>)\<rparr>"
  | (CallLock) c a q where
      "e = ECall c" "act s c = Some a" "astage a = AtLock"
      "deliver (chans (heap s c)) (heap s c) (sent s) = Inr q"
      "s' = s\<lparr>grp := (if \<not> forgotten (heap s c)
                         then \<lparr>g_m = go_delete (akey a) (g_m (grp s)),
                               g_t = go_delete (akey a) (g_t (grp s))\<rparr>
                         else grp s),
                 sent := q,
                 act := (act s)(c \<mapsto> a\<lparr>astage := Finished\<rparr>)\<rparr>"
  | (RetJoin) i c where
      "e = EReturn i" "thr s i = Some (Waiting c)" "wg (heap s c) = 0"
      "s' = s\<lparr>thr := (thr s)(i \<mapsto> Returned c False (result_of (heap s c) True))\<rparr>"
  | (RetOrig) i c a where
      "e = EReturn i" "thr s i = Some (InCall c)" "act s c = Some a" "astage a = Finished"
      "s' = s\<lparr>thr := (thr s)(i \<mapsto>
                     Returned c True (result_of (heap s c) (0 < dups (heap s c))))\<rparr>"
proof (cases e)
  case (EDo i key d fn now now')
  with step_EDo[of i key d fn now now' s s'] assms DoJoin[of i key d fn now now'] DoCreate[of i key d fn now now']
  show ?thesis by blast
next
  case (EDoChan i key d fn now now')
  with step_EDoChan[of i key d fn now now' s s'] assms ChanJoin[of i key d fn now now'] ChanCreate[of i key d fn now now']
  show ?thesis by blast
next
  case (EForget key)
  show ?thesis
  proof (cases "go_lookup (g_m (grp s)) key")
    case None
    then have "go_lookup (g_t (grp s)) key = None"
      using assms(2) by (simp add: reg_ok_def)
    with None have "Forget key s = s"
      by (simp add: Forget_absent)
    moreover have "s' = Forget key s"
      using assms(1) EForget by simp
    ultimately have "s' = s" by simp
    then show ?thesis by (rule ForgetNone[OF EForget None])
  next
    case (Some c)
    have "s' = Forget key s"
      using assms(1) EForget by simp
    then have "s' = s\<lparr>heap := (heap s)(c := (heap s c)\<lparr>forgotten := True\<rparr>),
               grp := \<lparr>g_m = go_delete key (g_m (grp s)), g_t = go_delete key (g_t (grp s))\<rparr>\<rparr>"
      using Some by (simp add: Forget_eq)
    then show ?thesis by (rule Forget[OF EForget Some])
  qed
next
  case (ECall c)
  obtain a where a: "act s c = Some a"
    using assms(1) ECall by (auto split: option.splits)
  show ?thesis
  proof (cases "astage a")
    case AtFn
    show ?thesis
      by (rule CallFn[OF ECall a AtFn]) (use assms(1) ECall a AtFn in \<open>auto simp: doCall_fn_def split: prod.splits\<close>)
  next
    case AtDone
    have w: "wg (heap s c) \<noteq> 0"
      using assms(1) ECall a AtDone by (auto simp: doCall_done_def split: if_splits)
    show ?thesis
      by (rule CallDone[OF ECall a AtDone w]) (use assms(1) ECall a AtDone w in \<open>auto simp: doCall_done_def\<close>)
  next
    case AtLock
    obtain q where q: "deliver (chans (heap s c)) (heap s c) (sent s) = Inr q"
      using assms(1) ECall a AtLock by (auto simp: doCall_lock_def Let_def split: sum.splits)
    show ?thesis
      by (rule CallLock[OF ECall a AtLock q]) (use assms(1) ECall a AtLock q in \<open>auto simp: doCall_lock_def Let_def\<close>)
  next
    case Finished
    then show ?thesis using assms(1) ECall a by simp
  qed
next
  case (EReturn i)
  with step_EReturn[of i s s'] assms(1) RetJoin[of i] RetOrig[of i]
  show ?thesis by blast
qed

section \<open>The invariants hold in every execution\<close>

lemma deliver_Inr:
  "deliver chs c q = Inr q' \<Longrightarrow>
     q' = q @ map (\<lambda>ch. (ch, result_of c (0 < dups c))) chs \<and> distinct chs \<and>
     set chs \<inter> fst ` set q = {}"
proof (induction chs arbitrary: q)
  case Nil
  then show ?case by simp
next
  case (Cons ch chs)
  from Cons.prems have n: "ch \<notin> fst ` set q"
    by (auto split: if_splits)
  with Cons.prems have "deliver chs c (q @ [(ch, result_of c (0 < dups c))]) = Inr q'"
    by (simp add: result_of_def)
  from Cons.IH[OF this] n show ?case by auto
qed

lemma deliver_ok:
  "distinct chs \<Longrightarrow> set chs \<inter> fst ` set q = {} \<Longrightarrow>
     deliver chs c q = Inr (q @ map (\<lambda>ch. (ch, result_of c (0 < dups c))) chs)"
proof (induction chs arbitrary: q)
  case Nil
  then show ?case by simp
next
  case (Cons ch chs)
  from Cons.prems have "distinct chs" "set chs \<inter> fst ` set (q @ [(ch, result_of c (0 < dups c))]) = {}"
    by auto
  from Cons.IH[OF this] Cons.prems show ?case
    by (auto simp: result_of_def)
qed

lemma registered:
  assumes "inv_reg s" and "go_lookup (g_m (grp s)) k = Some c"
  shows "\<not> forgotten (heap s c) \<and> c < nxt s \<and>
         (\<exists>a. act s c = Some a \<and> akey a = k \<and> astage a \<noteq> Finished)"
proof -
  from assms have f: "\<not> forgotten (heap s c) \<and>
      (\<exists>a. act s c = Some a \<and> akey a = k \<and> astage a \<noteq> Finished)"
    unfolding inv_reg_def by blast
  then have "act s c \<noteq> None" by auto
  with assms(1) have "c < nxt s"
    unfolding inv_reg_def by blast
  with f show ?thesis by simp
qed

lemma registered_key:
  assumes "inv_reg s" and "go_lookup (g_m (grp s)) k = Some c" and "act s c = Some a"
  shows "k = akey a \<and> astage a \<noteq> Finished \<and> \<not> forgotten (heap s c)"
  using registered[OF assms(1,2)] assms(3) by auto

lemma inv_reg_step1:
  assumes "step e s = Inr s'" and "inv_reg s"
  shows "reg_ok (grp s')"
proof -
  from assms(2) have r: "reg_ok (grp s)"
    by (simp add: inv_reg_def)
  from assms(1) r show ?thesis
    by (cases rule: step_elim) (simp_all add: r reg_ok_delete)
qed

lemma inv_reg_step2:
  assumes "step e s = Inr s'" and "inv_reg s"
  shows "(act s' c \<noteq> None) = (c < nxt s')"
proof -
  from assms(2) have r: "reg_ok (grp s)" and a: "\<And>c. (act s c \<noteq> None) = (c < nxt s)"
    by (simp_all add: inv_reg_def)
  from assms(1) r show ?thesis
    by (cases rule: step_elim) (use a in \<open>auto simp: less_Suc_eq\<close>)
qed


lemma inv_reg_step3:
  assumes "step e s = Inr s'" and i: "inv_reg s"
    and l: "go_lookup (g_m (grp s')) k = Some c"
  shows "\<not> forgotten (heap s' c) \<and>
         (\<exists>a. act s' c = Some a \<and> akey a = k \<and> astage a \<noteq> Finished)"
proof -
  from i have r: "reg_ok (grp s)"
    by (simp add: inv_reg_def)
  note reg = registered[OF i]
  from assms(1) r show ?thesis
  proof (cases rule: step_elim)
    case (DoJoin i key d fn now now' c')
    with l reg[of k c] show ?thesis by auto
  next
    case (DoCreate i key d fn now now' g')
    show ?thesis
    proof (cases "k = key")
      case True
      with l DoCreate show ?thesis by (simp add: start_def new_call_def)
    next
      case False
      with l DoCreate have "go_lookup (g_m (grp s)) k = Some c" by simp
      from reg[OF this] DoCreate(7) show ?thesis by auto
    qed
  next
    case (ChanJoin i key d fn now now' c')
    with l reg[of k c] show ?thesis by auto
  next
    case (ChanCreate i key d fn now now' g')
    show ?thesis
    proof (cases "k = key")
      case True
      with l ChanCreate show ?thesis by (simp add: start_def new_call_def)
    next
      case False
      with l ChanCreate have "go_lookup (g_m (grp s)) k = Some c" by simp
      from reg[OF this] ChanCreate(7) show ?thesis by auto
    qed
  next
    case (Forget key c')
    with l have k: "k \<noteq> key" "go_lookup (g_m (grp s)) k = Some c"
      by (auto split: if_splits)
    have "c \<noteq> c'"
      using reg[OF k(2)] reg[OF Forget(2)] k(1) by auto
    with reg[OF k(2)] Forget(3) show ?thesis by auto
  next
    case (ForgetNone key)
    with l reg[of k c] show ?thesis by auto
  next
    case (CallFn c' a)
    with l reg[of k c] show ?thesis by auto
  next
    case (CallDone c' a)
    with l reg[of k c] show ?thesis by auto
  next
    case (CallLock c' a q)
    show ?thesis
    proof (cases "forgotten (heap s c')")
      case True
      with l CallLock have k: "go_lookup (g_m (grp s)) k = Some c" by simp
      with reg[OF k] True have "c \<noteq> c'" by auto
      with reg[OF k] CallLock(5) show ?thesis by auto
    next
      case False
      with l CallLock have k: "k \<noteq> akey a" "go_lookup (g_m (grp s)) k = Some c"
        by (auto split: if_splits)
      have "c \<noteq> c'"
        using reg[OF k(2)] CallLock(2) k(1) by auto
      with reg[OF k(2)] CallLock(5) show ?thesis by auto
    qed
  next
    case (RetJoin i c')
    with l reg[of k c] show ?thesis by auto
  next
    case (RetOrig i c' a)
    with l reg[of k c] show ?thesis by auto
  qed
qed

lemma inv_reg_step:
  assumes "step e s = Inr s'" and "inv_reg s"
  shows "inv_reg s'"
  unfolding inv_reg_def
  using inv_reg_step1[OF assms] inv_reg_step2[OF assms] inv_reg_step3[OF assms]
  by blast

lemma act_fresh: "inv_reg s \<Longrightarrow> act s (nxt s) = None"
proof -
  assume "inv_reg s"
  then have "(act s (nxt s) \<noteq> None) = (nxt s < nxt s)"
    unfolding inv_reg_def by blast
  then show ?thesis by simp
qed

lemma act_alloc: "inv_reg s \<Longrightarrow> act s c = Some a \<Longrightarrow> c < nxt s"
proof -
  assume "inv_reg s" and a: "act s c = Some a"
  then have "(act s c \<noteq> None) = (c < nxt s)"
    unfolding inv_reg_def by blast
  with a show ?thesis by simp
qed

lemma inv_call_step1:
  assumes "step e s = Inr s'" and "inv_reg s" and "inv_call s"
  shows "0 \<le> dups (heap s' c)"
proof -
  from assms(2) have r: "reg_ok (grp s)"
    by (simp add: inv_reg_def)
  from assms(3) have d: "\<And>c. 0 \<le> dups (heap s c)"
    by (simp add: inv_call_def)
  from assms(1) r show ?thesis
    by (cases rule: step_elim) (use d in \<open>auto simp: new_call_def intro: add_increasing2\<close>)
qed

lemma inv_call_step2:
  assumes "step e s = Inr s'" and i: "inv_reg s" and "inv_call s"
    and a: "act s' c = Some a"
  shows "wg (heap s' c) = (if astage a = AtFn \<or> astage a = AtDone then 1 else 0) \<and>
         areturned a = (if astage a = AtFn then [] else [(val (heap s' c), err (heap s' c))])"
proof -
  from i have r: "reg_ok (grp s)" and n: "act s (nxt s) = None"
    by (simp_all add: inv_reg_def act_fresh)
  from assms(3) have
    d: "\<And>c a. act s c = Some a \<Longrightarrow>
        wg (heap s c) = (if astage a = AtFn \<or> astage a = AtDone then 1 else 0) \<and>
        areturned a = (if astage a = AtFn then [] else [(val (heap s c), err (heap s c))])"
    by (simp add: inv_call_def)
  from assms(1) r show ?thesis
  proof (cases rule: step_elim)
    case (DoCreate i key d fn now now' g')
    with a d[of c a] n show ?thesis
      by (cases "c = nxt s") (auto simp: start_def new_call_def)
  next
    case (ChanCreate i key d fn now now' g')
    with a d[of c a] n show ?thesis
      by (cases "c = nxt s") (auto simp: start_def new_call_def)
  next
    case (CallFn c' a')
    with a d[of c a] d[of c' a'] show ?thesis
      by (cases "c = c'") auto
  next
    case (CallDone c' a')
    with a d[of c a] d[of c' a'] show ?thesis
      by (cases "c = c'") auto
  next
    case (CallLock c' a' q)
    with a d[of c a] d[of c' a'] show ?thesis
      by (cases "c = c'") auto
  qed (use a d[of c a] in \<open>auto split: if_splits\<close>)
qed

lemma inv_call_step:
  assumes "step e s = Inr s'" and "inv_reg s" and "inv_call s"
  shows "inv_call s'"
  unfolding inv_call_def
  using inv_call_step1[OF assms] inv_call_step2[OF assms]
  by blast

lemma inv_thr_step1:
  assumes "step e s = Inr s'" and ir: "inv_reg s" and ic: "inv_call s" and it: "inv_thr s"
    and t: "thr s' j = Some p"
  shows "pc_ok s' p"
proof -
  from ir have r: "reg_ok (grp s)" and n: "act s (nxt s) = None"
    by (simp_all add: inv_reg_def act_fresh)
  from it have ok: "\<And>i p. thr s i = Some p \<Longrightarrow> pc_ok s p"
    by (simp add: inv_thr_def)
  from ic have d: "\<And>c. 0 \<le> dups (heap s c)"
    and w: "\<And>c a. act s c = Some a \<Longrightarrow>
        wg (heap s c) = (if astage a = AtFn \<or> astage a = AtDone then 1 else 0)"
    by (simp_all add: inv_call_def)
  note reg = registered[OF ir]
  from assms(1) r show ?thesis
  proof (cases rule: step_elim)
    case (DoJoin i key d' fn now now' c)
    show ?thesis
    proof (cases "j = i")
      case True
      with t DoJoin reg[OF DoJoin(3)] d[of c] show ?thesis
        by (auto simp: pc_ok_def)
    next
      case False
      with t DoJoin have "pc_ok s p" by (auto intro: ok)
      with DoJoin(5) reg[OF DoJoin(3)] d[of c] show ?thesis
        by (cases p) (auto simp: pc_ok_def)
    qed
  next
    case (DoCreate i key d' fn now now' g')
    show ?thesis
    proof (cases "j = i")
      case True
      with t DoCreate show ?thesis
        by (auto simp: pc_ok_def)
    next
      case False
      with t DoCreate have "pc_ok s p" by (auto intro: ok)
      with DoCreate(7) n show ?thesis
        by (cases p) (auto simp: pc_ok_def)
    qed
  next
    case (ChanJoin i key d' fn now now' c)
    show ?thesis
    proof (cases "j = i")
      case True
      with t ChanJoin reg[OF ChanJoin(3)] d[of c] show ?thesis
        by (auto simp: pc_ok_def)
    next
      case False
      with t ChanJoin have "pc_ok s p" by (auto intro: ok)
      with ChanJoin(5) reg[OF ChanJoin(3)] d[of c] show ?thesis
        by (cases p) (auto simp: pc_ok_def)
    qed
  next
    case (ChanCreate i key d' fn now now' g')
    show ?thesis
    proof (cases "j = i")
      case True
      with t ChanCreate show ?thesis
        by (auto simp: pc_ok_def new_call_def)
    next
      case False
      with t ChanCreate have "pc_ok s p" by (auto intro: ok)
      with ChanCreate(7) n show ?thesis
        by (cases p) (auto simp: pc_ok_def)
    qed
  next
    case (Forget key c)
    with t have "pc_ok s p" by (auto intro: ok)
    with Forget(3) show ?thesis
      by (cases p) (auto simp: pc_ok_def)
  next
    case (ForgetNone key)
    with t show ?thesis by (auto intro: ok)
  next
    case (CallFn c a)
    with t have "pc_ok s p" by (auto intro: ok)
    with CallFn show ?thesis
      by (cases p) (auto simp: pc_ok_def)
  next
    case (CallDone c a)
    with t have "pc_ok s p" by (auto intro: ok)
    with CallDone show ?thesis
      by (cases p) (auto simp: pc_ok_def)
  next
    case (CallLock c a q)
    with t have "pc_ok s p" by (auto intro: ok)
    with CallLock show ?thesis
      by (cases p) (auto simp: pc_ok_def)
  next
    case (RetJoin i c)
    show ?thesis
    proof (cases "j = i")
      case True
      from ok[OF RetJoin(2)] obtain a where a: "act s c = Some a" and dp: "0 < dups (heap s c)"
        by (auto simp: pc_ok_def)
      from w[OF a] RetJoin(3) have "astage a = AtLock \<or> astage a = Finished"
        by (cases "astage a") auto
      with True t RetJoin a dp show ?thesis
        by (auto simp: pc_ok_def result_of_def)
    next
      case False
      with t RetJoin have "pc_ok s p" by (auto intro: ok)
      with RetJoin(4) show ?thesis
        by (cases p) (auto simp: pc_ok_def)
    qed
  next
    case (RetOrig i c a)
    show ?thesis
    proof (cases "j = i")
      case True
      with t RetOrig show ?thesis
        by (auto simp: pc_ok_def result_of_def)
    next
      case False
      with t RetOrig have "pc_ok s p" by (auto intro: ok)
      with RetOrig(5) show ?thesis
        by (cases p) (auto simp: pc_ok_def)
    qed
  qed
qed

lemma joiner_keep:
  assumes "joiner (thr s i0) c" and "thr s i = None" and "thr s' = (thr s)(i \<mapsto> p)"
  shows "\<exists>i. joiner (thr s' i) c"
proof -
  from assms have "joiner (thr s' i0) c"
    by (cases "i0 = i") (auto simp: joiner_def)
  then show ?thesis ..
qed

lemma inv_thr_step2:
  assumes "step e s = Inr s'" and ir: "inv_reg s" and it: "inv_thr s"
    and p: "0 < dups (heap s' c)"
  shows "\<exists>i. joiner (thr s' i) c"
proof -
  from ir have r: "reg_ok (grp s)"
    by (simp add: inv_reg_def)
  from it have j: "\<And>c. 0 < dups (heap s c) \<Longrightarrow> \<exists>i. joiner (thr s i) c"
    by (simp add: inv_thr_def)
  from assms(1) r show ?thesis
  proof (cases rule: step_elim)
    case (DoJoin i key d' fn now now' c')
    show ?thesis
    proof (cases "c = c'")
      case True
      with DoJoin(5) have "joiner (thr s' i) c" by (simp add: joiner_def)
      then show ?thesis ..
    next
      case False
      with p DoJoin(5) j[of c] obtain i0 where "joiner (thr s i0) c" by auto
      then show ?thesis by (rule joiner_keep[OF _ DoJoin(2)]) (simp add: DoJoin(5))
    qed
  next
    case (DoCreate i key d' fn now now' g')
    with p have "c \<noteq> nxt s" by (auto simp: new_call_def)
    with p DoCreate(7) j[of c] obtain i0 where "joiner (thr s i0) c" by auto
    then show ?thesis by (rule joiner_keep[OF _ DoCreate(2)]) (simp add: DoCreate(7))
  next
    case (ChanJoin i key d' fn now now' c')
    show ?thesis
    proof (cases "c = c'")
      case True
      with ChanJoin(5) have "joiner (thr s' i) c" by (simp add: joiner_def)
      then show ?thesis ..
    next
      case False
      with p ChanJoin(5) j[of c] obtain i0 where "joiner (thr s i0) c" by auto
      then show ?thesis by (rule joiner_keep[OF _ ChanJoin(2)]) (simp add: ChanJoin(5))
    qed
  next
    case (ChanCreate i key d' fn now now' g')
    with p have "c \<noteq> nxt s" by (auto simp: new_call_def)
    with p ChanCreate(7) j[of c] obtain i0 where "joiner (thr s i0) c" by auto
    then show ?thesis by (rule joiner_keep[OF _ ChanCreate(2)]) (simp add: ChanCreate(7))
  next
    case (Forget key c')
    with p j[of c] show ?thesis by (cases "c = c'") auto
  next
    case (ForgetNone key)
    with p j[of c] show ?thesis by auto
  next
    case (CallFn c' a)
    with p j[of c] show ?thesis by (cases "c = c'") auto
  next
    case (CallDone c' a)
    with p j[of c] show ?thesis by (cases "c = c'") auto
  next
    case (CallLock c' a q)
    with p j[of c] show ?thesis by auto
  next
    case (RetJoin i c')
    with p j[of c] obtain i0 where i0: "joiner (thr s i0) c" by auto
    have "joiner (thr s' i0) c"
      using i0 RetJoin(2,4) by (cases "i0 = i") (auto simp: joiner_def)
    then show ?thesis ..
  next
    case (RetOrig i c' a)
    with p j[of c] obtain i0 where i0: "joiner (thr s i0) c" by auto
    have "joiner (thr s' i0) c"
      using i0 RetOrig(2,5) by (cases "i0 = i") (auto simp: joiner_def)
    then show ?thesis ..
  qed
qed

lemma inv_thr_step:
  assumes "step e s = Inr s'" and "inv_reg s" and "inv_call s" and "inv_thr s"
  shows "inv_thr s'"
  unfolding inv_thr_def
  using inv_thr_step1[OF assms] inv_thr_step2[OF assms(1,2,4)]
  by blast

lemma inv_chan_step1:
  assumes "step e s = Inr s'" and ir: "inv_reg s" and ich: "inv_chan s"
  shows "(\<forall>ch \<in> set (chans (heap s' c)). ch < nxtc s') \<and> distinct (chans (heap s' c)) \<and>
         (c \<noteq> c' \<longrightarrow> set (chans (heap s' c)) \<inter> set (chans (heap s' c')) = {})"
proof -
  from ir have r: "reg_ok (grp s)"
    by (simp add: inv_reg_def)
  from ich have b: "\<And>c ch. ch \<in> set (chans (heap s c)) \<Longrightarrow> ch < nxtc s"
    and d: "\<And>c. distinct (chans (heap s c))"
    and x: "\<And>c c'. c \<noteq> c' \<Longrightarrow> set (chans (heap s c)) \<inter> set (chans (heap s c')) = {}"
    unfolding inv_chan_def by blast+
  have f: "\<And>c. nxtc s \<notin> set (chans (heap s c))"
    using b by fastforce
  from assms(1) r show ?thesis
  proof (cases rule: step_elim)
    case (ChanJoin i key d' fn now now' c0)
    then show ?thesis using b[of _ c] d[of c] x[of c c'] f[of c] f[of c']
      by (auto simp: less_Suc_eq)
  next
    case (ChanCreate i key d' fn now now' g')
    then show ?thesis using b[of _ c] d[of c] x[of c c'] f[of c] f[of c']
      by (auto simp: less_Suc_eq new_call_def)
  next
    case (DoCreate i key d' fn now now' g')
    then show ?thesis using b[of _ c] d[of c] x[of c c']
      by (auto simp: new_call_def)
  qed (use b[of _ c] d[of c] x[of c c'] in auto)
qed


lemma inv_chan_step2:
  assumes "step e s = Inr s'" and ir: "inv_reg s" and ich: "inv_chan s"
  shows "distinct (map fst (sent s'))"
proof -
  from ir have r: "reg_ok (grp s)"
    by (simp add: inv_reg_def)
  from ich have d: "distinct (map fst (sent s))"
    unfolding inv_chan_def by blast
  from assms(1) r show ?thesis
  proof (cases rule: step_elim)
    case (CallLock c a q)
    from deliver_Inr[OF CallLock(4)] d CallLock(5) show ?thesis
      by (auto simp: comp_def)
  qed (use d in auto)
qed

text \<open>The result a finished call hands out no longer changes.\<close>

lemma finished_frame:
  assumes "step e s = Inr s'" and ir: "inv_reg s"
    and a: "act s c = Some a" and f: "astage a = Finished"
  shows "act s' c = Some a \<and> chans (heap s' c) = chans (heap s c) \<and>
         val (heap s' c) = val (heap s c) \<and> err (heap s' c) = err (heap s c) \<and>
         dups (heap s' c) = dups (heap s c)"
proof -
  from ir have r: "reg_ok (grp s)" and n: "act s (nxt s) = None"
    by (simp_all add: inv_reg_def act_fresh)
  note reg = registered_key[OF ir _ a]
  from assms(1) r show ?thesis
  proof (cases rule: step_elim)
    case (DoJoin i key d' fn now now' c0)
    with reg[of key] f a show ?thesis by auto
  next
    case (ChanJoin i key d' fn now now' c0)
    with reg[of key] f a show ?thesis by auto
  next
    case (Forget key c0)
    with a show ?thesis by auto
  qed (use a f n in auto)
qed

lemma inv_chan_step3:
  assumes "step e s = Inr s'" and ir: "inv_reg s" and ich: "inv_chan s"
    and m: "(ch, r) \<in> set (sent s')"
  shows "\<exists>c a. act s' c = Some a \<and> astage a = Finished \<and> ch \<in> set (chans (heap s' c)) \<and>
               r = result_of (heap s' c) (0 < dups (heap s' c))"
proof -
  from ir have r: "reg_ok (grp s)"
    by (simp add: inv_reg_def)
  from ich have
    o: "\<And>ch r. (ch, r) \<in> set (sent s) \<Longrightarrow>
        \<exists>c a. act s c = Some a \<and> astage a = Finished \<and> ch \<in> set (chans (heap s c)) \<and>
               r = result_of (heap s c) (0 < dups (heap s c))"
    unfolding inv_chan_def by blast
  have keep: "(ch, r) \<in> set (sent s) \<Longrightarrow> ?thesis"
  proof -
    assume "(ch, r) \<in> set (sent s)"
    from o[OF this] obtain c a where a: "act s c = Some a" "astage a = Finished"
      and c: "ch \<in> set (chans (heap s c))" "r = result_of (heap s c) (0 < dups (heap s c))"
      by blast
    from finished_frame[OF assms(1) ir a]
    have "act s' c = Some a \<and> astage a = Finished \<and> ch \<in> set (chans (heap s' c)) \<and>
          r = result_of (heap s' c) (0 < dups (heap s' c))"
      using a(2) c by (simp add: result_of_def)
    then show ?thesis by blast
  qed
  from assms(1) r show ?thesis
  proof (cases rule: step_elim)
    case (CallLock c a q)
    show ?thesis
    proof (cases "(ch, r) \<in> set (sent s)")
      case True
      then show ?thesis by (rule keep)
    next
      case False
      with m deliver_Inr[OF CallLock(4)] CallLock(5)
      have "ch \<in> set (chans (heap s c))" "r = result_of (heap s c) (0 < dups (heap s c))"
        by auto
      with CallLock(5) show ?thesis by auto
    qed
  qed (use m keep in auto)
qed


lemma inv_chan_step4:
  assumes "step e s = Inr s'" and ir: "inv_reg s" and ich: "inv_chan s"
    and a: "act s' c = Some a" and f: "astage a = Finished" and m: "ch \<in> set (chans (heap s' c))"
  shows "(ch, result_of (heap s' c) (0 < dups (heap s' c))) \<in> set (sent s')"
proof -
  from ir have r: "reg_ok (grp s)"
    by (simp add: inv_reg_def)
  from ich have
    o: "\<And>c a ch. act s c = Some a \<Longrightarrow> astage a = Finished \<Longrightarrow> ch \<in> set (chans (heap s c)) \<Longrightarrow>
        (ch, result_of (heap s c) (0 < dups (heap s c))) \<in> set (sent s)"
    unfolding inv_chan_def by blast
  have keep: "set (sent s) \<subseteq> set (sent s') \<Longrightarrow> act s c = Some a \<Longrightarrow> ?thesis"
  proof -
    assume sub: "set (sent s) \<subseteq> set (sent s')" and a0: "act s c = Some a"
    from finished_frame[OF assms(1) ir a0 f] m
    have "ch \<in> set (chans (heap s c))"
      and "result_of (heap s' c) (0 < dups (heap s' c)) = result_of (heap s c) (0 < dups (heap s c))"
      by (simp_all add: result_of_def)
    with o[OF a0 f, of ch] sub show ?thesis by auto
  qed
  from assms(1) r show ?thesis
  proof (cases rule: step_elim)
    case (DoCreate i key d' fn now now' g')
    with a f have "act s c = Some a"
      by (auto simp: start_def split: if_splits)
    with DoCreate(7) keep show ?thesis by simp
  next
    case (ChanCreate i key d' fn now now' g')
    with a f have "act s c = Some a"
      by (auto simp: start_def split: if_splits)
    with ChanCreate(7) keep show ?thesis by simp
  next
    case (CallFn c0 a0)
    with a f have "act s c = Some a"
      by (auto split: if_splits)
    with CallFn(4) keep show ?thesis by simp
  next
    case (CallDone c0 a0)
    with a f have "act s c = Some a"
      by (auto split: if_splits)
    with CallDone(5) keep show ?thesis by simp
  next
    case (CallLock c0 a0 q)
    note q = deliver_Inr[OF CallLock(4)]
    show ?thesis
    proof (cases "c = c0")
      case True
      with m q CallLock(5) show ?thesis by auto
    next
      case False
      with a CallLock(5) have "act s c = Some a" by simp
      moreover have "set (sent s) \<subseteq> set (sent s')"
        using q CallLock(5) by auto
      ultimately show ?thesis by (rule keep[rotated])
    qed
  qed (use a keep in auto)
qed

lemma inv_chan_step:
  assumes "step e s = Inr s'" and "inv_reg s" and "inv_chan s"
  shows "inv_chan s'"
  unfolding inv_chan_def
  using inv_chan_step1[OF assms] inv_chan_step2[OF assms] inv_chan_step3[OF assms]
    inv_chan_step4[OF assms]
  by blast

lemma inv_step: "step e s = Inr s' \<Longrightarrow> inv_all s \<Longrightarrow> inv_all s'"
  unfolding inv_all_def
  using inv_reg_step inv_call_step inv_thr_step inv_chan_step by blast

lemma inv_run: "run es s = Inr s' \<Longrightarrow> inv_all s \<Longrightarrow> inv_all s'"
proof (induction es arbitrary: s)
  case Nil
  then show ?case by simp
next
  case (Cons e es)
  from Cons.prems(1) obtain s1 where s1: "step e s = Inr s1" "run es s1 = Inr s'"
    by (auto split: sum.splits)
  from inv_step[OF s1(1) Cons.prems(2)] Cons.IH[OF s1(2)] show ?case by simp
qed

lemma inv_reachable: "run es (init w) = Inr s \<Longrightarrow> inv_all s"
  by (rule inv_run[OF _ inv_init])

section \<open>Further facts about executions\<close>

text \<open>
  While a call stays registered under a key, the expiry stored for the key is the one
  stored when the call was created.
\<close>

lemma expiry_kept_step:
  assumes "step e s = Inr s'" and ir: "inv_reg s" and "c < nxt s"
    and "go_lookup (g_m (grp s)) key = Some c \<longrightarrow> go_lookup (g_t (grp s)) key = Some t"
  shows "c < nxt s' \<and>
         (go_lookup (g_m (grp s')) key = Some c \<longrightarrow> go_lookup (g_t (grp s')) key = Some t)"
proof -
  from ir have r: "reg_ok (grp s)"
    by (simp add: inv_reg_def)
  from assms(1) r show ?thesis
    by (cases rule: step_elim) (use assms(3,4) in \<open>auto split: if_splits\<close>)
qed

lemma expiry_kept_run:
  assumes "run es s = Inr s'" and "inv_all s" and "c < nxt s"
    and "go_lookup (g_m (grp s)) key = Some c \<longrightarrow> go_lookup (g_t (grp s)) key = Some t"
  shows "go_lookup (g_m (grp s')) key = Some c \<longrightarrow> go_lookup (g_t (grp s')) key = Some t"
  using assms
proof (induction es arbitrary: s)
  case Nil
  then show ?case by simp
next
  case (Cons e es)
  from Cons.prems(1) obtain s1 where s1: "step e s = Inr s1" "run es s1 = Inr s'"
    by (auto split: sum.splits)
  from Cons.prems(2) have ir: "inv_reg s"
    by (simp add: inv_all_def)
  from expiry_kept_step[OF s1(1) ir Cons.prems(3,4)] inv_step[OF s1(1) Cons.prems(2)]
    Cons.IH[OF s1(2)]
  show ?case by blast
qed

lemma not_sless_of_sle: "(now::int64) \<le>s now' \<Longrightarrow> \<not> now' <s now"
  by (simp add: word_sle_eq word_sless_alt)

lemma create_step:
  assumes e: "e = EDo i key d fn now0 now \<or> e = EDoChan i key d fn now0 now"
    and st: "step e s = Inr s1" and r: "reg_ok (grp s)" and j: "joinable (grp s) key now0 = None"
  shows "nxt s1 = Suc (nxt s) \<and> go_lookup (g_m (grp s1)) key = Some (nxt s) \<and>
         go_lookup (g_t (grp s1)) key = Some (getValidTime d now)"
  using st r
  by (cases rule: step_elim) (use e j in \<open>auto simp: joinable_None\<close>)

lemma create_again:
  assumes r: "reg_ok (grp s)" and j: "joinable (grp s) key now = None"
  shows "(\<exists>s'. Do_lock key d now now' s = Inr (Created (nxt s), s')) \<and>
         (\<exists>s'. DoChan_lock key d now now' s = Inr (nxtc s, Created (nxt s), s'))"
proof -
  from reg_ok_lazy_init[OF r] have "g_t (lazy_init (grp s)) \<noteq> None" by simp
  from register_ok[OF lazy_init_not_nil this]
  obtain g' where "register key (nxt s) d now' (lazy_init (grp s)) = Inr g'" by blast
  with j show ?thesis
    by (simp add: Do_lock_def DoChan_lock_def Let_def)
qed

lemmas eval_defs =
  init_def zero_Group_def new_call_def go_lookup_def go_delete_def go_assign_def
  MaxInt64_def Second_def go_div_def signed_divide_int_def getValidTime_def
  lazy_init_def expiry_of_def joinable_def register_def Do_lock_def DoChan_lock_def
  doCall_fn_def doCall_done_def doCall_lock_def Forget_def start_def result_of_def

lemma expiry_of_stored:
  "go_lookup (g_t g) key = Some t \<Longrightarrow> expiry_of g key = t"
  by (simp add: expiry_of_def)

lemma join_branch:
  assumes m: "go_lookup (g_m (grp s)) key = Some c" and t: "now <s expiry_of (grp s) key"
  shows "Do_lock key d now now' s =
           Inr (Joined c, s\<lparr>heap := (heap s)(c := (heap s c)\<lparr>dups := dups (heap s c) + 1\<rparr>)\<rparr>)"
    and "DoChan_lock key d now now' s =
           Inr (nxtc s, Joined c,
                s\<lparr>nxtc := Suc (nxtc s),
                  heap := (heap s)(c := (heap s c)\<lparr>dups := dups (heap s c) + 1,
                                                   chans := chans (heap s c) @ [nxtc s]\<rparr>)\<rparr>)"
proof -
  from m have "g_m (grp s) \<noteq> None"
    by (auto simp: go_lookup_def split: option.splits)
  then have l: "lazy_init (grp s) = grp s" by (rule lazy_init_id)
  from m t have j: "joinable (grp s) key now = Some c"
    by (simp add: joinable_Some)
  from l j show "Do_lock key d now now' s =
           Inr (Joined c, s\<lparr>heap := (heap s)(c := (heap s c)\<lparr>dups := dups (heap s c) + 1\<rparr>)\<rparr>)"
    by (simp add: Do_lock_def Let_def)
  from l j show "DoChan_lock key d now now' s =
           Inr (nxtc s, Joined c,
                s\<lparr>nxtc := Suc (nxtc s),
                  heap := (heap s)(c := (heap s c)\<lparr>dups := dups (heap s c) + 1,
                                                   chans := chans (heap s c) @ [nxtc s]\<rparr>)\<rparr>)"
    by (simp add: DoChan_lock_def Let_def)
qed

lemma create_branch:
  assumes r: "reg_ok (grp s)" and j: "joinable (grp s) key now = None"
  shows "\<exists>g'. (\<forall>k. go_lookup (g_m g') k = (if k = key then Some (nxt s) else go_lookup (g_m (grp s)) k)) \<and>
           (\<forall>k. go_lookup (g_t g') k =
                 (if k = key then Some (getValidTime d now') else go_lookup (g_t (grp s)) k)) \<and>
           Do_lock key d now now' s =
             Inr (Created (nxt s),
                  s\<lparr>grp := g', heap := (heap s)(nxt s := new_call\<lparr>wg := 1\<rparr>), nxt := Suc (nxt s)\<rparr>) \<and>
           DoChan_lock key d now now' s =
             Inr (nxtc s, Created (nxt s),
                  s\<lparr>grp := g', nxtc := Suc (nxtc s),
                    heap := (heap s)(nxt s := new_call\<lparr>chans := [nxtc s], wg := 1\<rparr>),
                    nxt := Suc (nxt s)\<rparr>)"
proof -
  from reg_ok_lazy_init[OF r] have "g_t (lazy_init (grp s)) \<noteq> None" by simp
  from register_ok[OF lazy_init_not_nil this]
  obtain g' where g: "register key (nxt s) d now' (lazy_init (grp s)) = Inr g'" by blast
  from g j have "Do_lock key d now now' s =
             Inr (Created (nxt s),
                  s\<lparr>grp := g', heap := (heap s)(nxt s := new_call\<lparr>wg := 1\<rparr>), nxt := Suc (nxt s)\<rparr>)"
    and "DoChan_lock key d now now' s =
             Inr (nxtc s, Created (nxt s),
                  s\<lparr>grp := g', nxtc := Suc (nxtc s),
                    heap := (heap s)(nxt s := new_call\<lparr>chans := [nxtc s], wg := 1\<rparr>),
                    nxt := Suc (nxt s)\<rparr>)"
    by (simp_all add: Do_lock_def DoChan_lock_def Let_def)
  with register_lazy_init[OF g r] show ?thesis by blast
qed

lemma join_step:
  assumes m: "go_lookup (g_m (grp s)) key = Some c" and t: "now <s expiry_of (grp s) key"
    and i: "thr s i = None"
  shows "\<exists>s'. step (EDo i key d fn now now') s = Inr s' \<and> world s' = world s \<and>
              act s' = act s \<and> thr s' i = Some (Waiting c)"
    and "\<exists>s'. step (EDoChan i key d fn now now') s = Inr s' \<and> world s' = world s \<and>
              act s' = act s \<and> thr s' i = Some (GotChan (nxtc s) c False)"
  using join_branch[OF m t] i by simp_all

lemma create_step_act:
  assumes r: "reg_ok (grp s)" and j: "joinable (grp s) key now = None" and i: "thr s i = None"
  shows "\<exists>s'. step (EDo i key d fn now now') s = Inr s' \<and> world s' = world s \<and>
              act s' = (act s)(nxt s \<mapsto> start key fn) \<and> thr s' i = Some (InCall (nxt s))"
    and "\<exists>s'. step (EDoChan i key d fn now now') s = Inr s' \<and> world s' = world s \<and>
              act s' = (act s)(nxt s \<mapsto> start key fn) \<and>
              thr s' i = Some (GotChan (nxtc s) (nxt s) True)"
proof -
  from create_branch[OF r j, of d now'] obtain g' where
    "Do_lock key d now now' s =
             Inr (Created (nxt s),
                  s\<lparr>grp := g', heap := (heap s)(nxt s := new_call\<lparr>wg := 1\<rparr>), nxt := Suc (nxt s)\<rparr>)"
    "DoChan_lock key d now now' s =
             Inr (nxtc s, Created (nxt s),
                  s\<lparr>grp := g', nxtc := Suc (nxtc s),
                    heap := (heap s)(nxt s := new_call\<lparr>chans := [nxtc s], wg := 1\<rparr>),
                    nxt := Suc (nxt s)\<rparr>)"
    by blast
  with i show "\<exists>s'. step (EDo i key d fn now now') s = Inr s' \<and> world s' = world s \<and>
              act s' = (act s)(nxt s \<mapsto> start key fn) \<and> thr s' i = Some (InCall (nxt s))"
    and "\<exists>s'. step (EDoChan i key d fn now now') s = Inr s' \<and> world s' = world s \<and>
              act s' = (act s)(nxt s \<mapsto> start key fn) \<and>
              thr s' i = Some (GotChan (nxtc s) (nxt s) True)"
    by simp_all
qed

lemma zero_Group_Do:
  assumes "grp s = zero_Group"
  shows "Do_lock key d now now' s =
           Inr (Created (nxt s),
                s\<lparr>grp := \<lparr>g_m = Some [key \<mapsto> nxt s], g_t = Some [key \<mapsto> getValidTime d now']\<rparr>,
                  heap := (heap s)(nxt s := new_call\<lparr>wg := 1\<rparr>), nxt := Suc (nxt s)\<rparr>)"
  using assms
  by (simp add: Do_lock_def lazy_init_def zero_Group_def joinable_def go_lookup_def register_def
      go_assign_def Let_def)

lemma zero_Group_DoChan:
  assumes "grp s = zero_Group"
  shows "DoChan_lock key d now now' s =
           Inr (nxtc s, Created (nxt s),
                s\<lparr>grp := \<lparr>g_m = Some [key \<mapsto> nxt s], g_t = Some [key \<mapsto> getValidTime d now']\<rparr>,
                  nxtc := Suc (nxtc s),
                  heap := (heap s)(nxt s := new_call\<lparr>chans := [nxtc s], wg := 1\<rparr>),
                  nxt := Suc (nxt s)\<rparr>)"
  using assms
  by (simp add: DoChan_lock_def lazy_init_def zero_Group_def joinable_def go_lookup_def
      register_def go_assign_def Let_def)

lemma zero_Group_Forget:
  assumes "grp s = zero_Group"
  shows "Forget key s = s"
  by (rule Forget_absent) (simp_all add: assms zero_Group_def)

lemma Forget_unregistered:
  assumes "inv_all s" and "go_lookup (g_m (grp s)) key = None"
  shows "Forget key s = s"
proof -
  from assms(1) have "reg_ok (grp s)"
    by (simp add: inv_all_def inv_reg_def)
  then have "(go_lookup (g_m (grp s)) key = None) = (go_lookup (g_t (grp s)) key = None)"
    unfolding reg_ok_def by blast
  with assms(2) show ?thesis
    by (simp add: Forget_absent)
qed

lemma filter_fst_single:
  "distinct (map fst xs) \<Longrightarrow> (k, v) \<in> set xs \<Longrightarrow> filter (\<lambda>m. fst m = k) xs = [(k, v)]"
proof (induction xs)
  case Nil
  then show ?case by simp
next
  case (Cons x xs)
  show ?case
  proof (cases "x = (k, v)")
    case True
    with Cons.prems(1) have "k \<notin> fst ` set xs" by auto
    then have "filter (\<lambda>m. fst m = k) xs = []"
      by (auto simp: filter_empty_conv)
    with True show ?thesis by simp
  next
    case False
    with Cons.prems have "(k, v) \<in> set xs" "fst x \<noteq> k"
      by (auto simp: image_iff)
    with Cons.IH Cons.prems(1) show ?thesis by simp
  qed
qed

text \<open>The sends of the locked section of \<open>doCall\<close> never block.\<close>

lemma locked_section_sends:
  assumes i: "inv_all s" and a: "act s c = Some a" and l: "astage a = AtLock"
  shows "distinct (chans (heap s c)) \<and> set (chans (heap s c)) \<inter> fst ` set (sent s) = {} \<and>
         deliver (chans (heap s c)) (heap s c) (sent s) =
           Inr (sent s @ map (\<lambda>ch. (ch, result_of (heap s c) (0 < dups (heap s c))))
                             (chans (heap s c)))"
proof -
  from i have ich: "inv_chan s" by (simp add: inv_all_def)
  then have d: "distinct (chans (heap s c))"
    unfolding inv_chan_def by blast
  have x: "set (chans (heap s c)) \<inter> fst ` set (sent s) = {}"
  proof (rule ccontr)
    assume "set (chans (heap s c)) \<inter> fst ` set (sent s) \<noteq> {}"
    then obtain ch r where ch: "ch \<in> set (chans (heap s c))" "(ch, r) \<in> set (sent s)"
      by auto
    from ich ch(2) obtain c' a' where c': "act s c' = Some a'" "astage a' = Finished"
      "ch \<in> set (chans (heap s c'))"
      unfolding inv_chan_def by blast
    with a l have "c \<noteq> c'" by auto
    with ich have "set (chans (heap s c)) \<inter> set (chans (heap s c')) = {}"
      unfolding inv_chan_def by blast
    with ch(1) c'(3) show False by auto
  qed
  from d x deliver_ok[OF d x] show ?thesis by simp
qed
























lemma forgotten_step:
  assumes "step e s = Inr s'" and ir: "inv_reg s" and "act s c \<noteq> None"
    and "forgotten (heap s c)"
  shows "act s' c \<noteq> None \<and> forgotten (heap s' c)"
proof -
  from ir have r: "reg_ok (grp s)" and n: "act s (nxt s) = None"
    by (simp_all add: inv_reg_def act_fresh)
  from assms(3) n have "c \<noteq> nxt s" by auto
  with assms(1) r show ?thesis
    by (cases rule: step_elim) (use assms(3,4) in \<open>auto split: if_splits\<close>)
qed

lemma forgotten_run:
  assumes "run es s = Inr u" and "inv_all s" and "act s c \<noteq> None" and "forgotten (heap s c)"
  shows "forgotten (heap u c)"
  using assms
proof (induction es arbitrary: s)
  case Nil
  then show ?case by simp
next
  case (Cons e es)
  from Cons.prems(1) obtain s1 where s1: "step e s = Inr s1" "run es s1 = Inr u"
    by (auto split: sum.splits)
  from Cons.prems(2) have ir: "inv_reg s" by (simp add: inv_all_def)
  from forgotten_step[OF s1(1) ir Cons.prems(3,4)]
    Cons.IH[OF s1(2) inv_step[OF s1(1) Cons.prems(2)]]
  show ?case by simp
qed

lemma forgotten_unjoinable:
  assumes "inv_all s" and "forgotten (heap s c)"
  shows "joinable (grp s) k now \<noteq> Some c"
proof
  assume "joinable (grp s) k now = Some c"
  then have "go_lookup (g_m (grp s)) k = Some c"
    by (simp add: joinable_Some)
  moreover from assms(1) have "inv_reg s" by (simp add: inv_all_def)
  ultimately show False using registered assms(2) by blast
qed

text \<open>The completion of a forgotten call leaves the registry alone and still delivers.\<close>

lemma forgotten_completion:
  assumes i: "inv_all s" and a: "act s c = Some a" and l: "astage a = AtLock"
    and f: "forgotten (heap s c)"
  shows "\<exists>s'. step (ECall c) s = Inr s' \<and> grp s' = grp s \<and>
           sent s' = sent s @
             map (\<lambda>ch. (ch, \<lparr>Val = val (heap s c), Err = err (heap s c),
                              Shared = (0 < dups (heap s c))\<rparr>)) (chans (heap s c))"
  using locked_section_sends[OF i a l] a l f
  by (simp add: doCall_lock_def Let_def result_of_def)

lemma forget_before_run: "run forget_before_events (init 0) = Inr forget_before_state"
  by (simp add: forget_before_state_def forget_before_events_def eval_defs op_bar_def)

lemma forget_before_fields:
  "go_lookup (g_m (grp forget_before_state)) ''key'' = Some 0"
  "nxt forget_before_state = 1"
  "nxtc forget_before_state = 1"
  by (simp_all add: forget_before_state_def forget_before_events_def eval_defs op_bar_def)

lemma forget_after_run:
  "run forget_after_events (Forget ''key'' forget_before_state) = Inr forget_after_state"
  by (simp add: forget_after_state_def forget_after_events_def forget_before_state_def
      forget_before_events_def eval_defs op_bar_def)

lemma forget_after_fields:
  "act forget_after_state 0 = Some \<lparr>akey = ''key'', afn = op_bar, astage = AtLock,
                                    areturned = [(Some ''bar'', None)]\<rparr>"
  "thr forget_after_state 3 = Some (Waiting 0)"
  "wg (heap forget_after_state 0) = 0"
  "val (heap forget_after_state 0) = Some ''bar''"
  "err (heap forget_after_state 0) = None"
  "dups (heap forget_after_state 0) = 2"
  "chans (heap forget_after_state 0) = [0]"
  "sent forget_after_state = []"
  "go_lookup (g_m (grp forget_after_state)) ''key'' = Some 1"
  by (simp_all add: forget_after_state_def forget_after_events_def forget_before_state_def
      forget_before_events_def eval_defs op_bar_def)

section \<open>The claims\<close>

subsection \<open>C1\<close>

text \<open>
  C1. The claim asks that a completion evicts the entry of its key only if the entry still
  is this call. Lines 115-118 delete the entry whenever the completing call is not
  forgotten. The execution below shows the difference: \<open>Do("k", 1s, op)\<close> at second 100
  creates call 0 with expiry 101; \<open>Do("k", 1s, op)\<close> at second 101 finds it expired and
  creates call 1 with expiry 102, replacing the entry without marking call 0 forgotten; the
  operation of call 0 returns and its wait group is released. At that point the key is
  registered to call 1, which a caller at second 101 would join. The locked section of the
  completion of call 0 then removes the entry of call 1, whose operation has not yet run,
  and a caller at second 101 no longer joins it.
\<close>

theorem C1_stale_completion_evicts_newer_call:
  "case run [EDo 0 ''k'' 1000000000 op_bar 100 100, EDo 1 ''k'' 1000000000 op_bar 101 101,
             ECall 0, ECall 0] (init 0) of
     Inl f \<Rightarrow> False
   | Inr s \<Rightarrow>
       map_option astage (act s 0) = Some AtLock \<and> \<not> forgotten (heap s 0) \<and>
       map_option astage (act s 1) = Some AtFn \<and>
       go_lookup (g_m (grp s)) ''k'' = Some 1 \<and> go_lookup (g_t (grp s)) ''k'' = Some 102 \<and>
       joinable (grp s) ''k'' 101 = Some 1 \<and>
       (case step (ECall 0) s of
          Inl f \<Rightarrow> False
        | Inr s' \<Rightarrow>
            map_option astage (act s' 0) = Some Finished \<and>
            map_option astage (act s' 1) = Some AtFn \<and>
            go_lookup (g_m (grp s')) ''k'' = None \<and> go_lookup (g_t (grp s')) ''k'' = None \<and>
            joinable (grp s') ''k'' 101 = None \<and>
            (\<exists>s''. Do_lock ''k'' 1000000000 101 101 s' = Inr (Created 2, s'')))"
  by (simp add: eval_defs op_bar_def)

subsection \<open>C2\<close>

text \<open>
  C2. In every state of an execution \<open>Forget(key)\<close> returns, and then neither map has an
  entry for the key; the callers, the activations, the channels and the outside world are
  as before, and of the heap only the \<open>forgotten\<close> flag of the call that was registered
  under the key has changed, to true. A \<open>Do\<close> or \<open>DoChan\<close> for the key at that point
  creates a new call, at a new address. In every later state the prior call is still
  forgotten and no join decision yields it; the locked section of its completion leaves the
  registry as it is and sends its result on every channel registered with it; and a \<open>Do\<close>
  that waits on it returns its \<open>val\<close> and \<open>err\<close> once its wait group is released.
\<close>

theorem C2_forget:
  assumes "run es (init w) = Inr s"
  shows
    "step (EForget key) s = Inr (Forget key s) \<and>
     go_lookup (g_m (grp (Forget key s))) key = None \<and>
     go_lookup (g_t (grp (Forget key s))) key = None \<and>
     thr (Forget key s) = thr s \<and> act (Forget key s) = act s \<and>
     sent (Forget key s) = sent s \<and> world (Forget key s) = world s \<and>
     nxt (Forget key s) = nxt s \<and>
     (\<exists>s''. Do_lock key d now now' (Forget key s) = Inr (Created (nxt s), s'')) \<and>
     (\<exists>s''. DoChan_lock key d now now' (Forget key s) = Inr (nxtc s, Created (nxt s), s'')) \<and>
     (go_lookup (g_m (grp s)) key = Some c \<longrightarrow>
        c < nxt s \<and> heap (Forget key s) = (heap s)(c := (heap s c)\<lparr>forgotten := True\<rparr>) \<and>
        (run es' (Forget key s) = Inr u \<longrightarrow>
           forgotten (heap u c) \<and> joinable (grp u) k now \<noteq> Some c \<and>
           (act u c = Some a \<longrightarrow> astage a = AtLock \<longrightarrow>
              (\<exists>u'. step (ECall c) u = Inr u' \<and> grp u' = grp u \<and>
                 sent u' = sent u @
                   map (\<lambda>ch. (ch, \<lparr>Val = val (heap u c), Err = err (heap u c),
                                    Shared = (0 < dups (heap u c))\<rparr>)) (chans (heap u c)))) \<and>
           (thr u i = Some (Waiting c) \<longrightarrow> wg (heap u c) = 0 \<longrightarrow>
              (\<exists>u'. step (EReturn i) u = Inr u' \<and>
                 thr u' i = Some (Returned c False
                   \<lparr>Val = val (heap u c), Err = err (heap u c), Shared = True\<rparr>)))))"
proof -
  let ?s' = "Forget key s"
  have i: "inv_all s" by (rule inv_reachable[OF assms])
  have st: "step (EForget key) s = Inr ?s'" by simp
  have i': "inv_all ?s'" by (rule inv_step[OF st i])
  then have r': "reg_ok (grp ?s')" by (simp add: inv_all_def inv_reg_def)
  have f: "go_lookup (g_m (grp ?s')) key = None" "go_lookup (g_t (grp ?s')) key = None"
    "thr ?s' = thr s" "act ?s' = act s" "sent ?s' = sent s" "world ?s' = world s"
    "nxt ?s' = nxt s" "nxtc ?s' = nxtc s"
    by (simp_all add: Forget_eq)
  from f(1) have "joinable (grp ?s') key now = None"
    by (simp add: joinable_None)
  from create_again[OF r' this, of d now'] f(7,8)
  have cr: "(\<exists>s''. Do_lock key d now now' ?s' = Inr (Created (nxt s), s'')) \<and>
     (\<exists>s''. DoChan_lock key d now now' ?s' = Inr (nxtc s, Created (nxt s), s''))"
    by simp
  have p: "go_lookup (g_m (grp s)) key = Some c \<longrightarrow>
        c < nxt s \<and> heap ?s' = (heap s)(c := (heap s c)\<lparr>forgotten := True\<rparr>) \<and>
        (run es' ?s' = Inr u \<longrightarrow>
           forgotten (heap u c) \<and> joinable (grp u) k now \<noteq> Some c \<and>
           (act u c = Some a \<longrightarrow> astage a = AtLock \<longrightarrow>
              (\<exists>u'. step (ECall c) u = Inr u' \<and> grp u' = grp u \<and>
                 sent u' = sent u @
                   map (\<lambda>ch. (ch, \<lparr>Val = val (heap u c), Err = err (heap u c),
                                    Shared = (0 < dups (heap u c))\<rparr>)) (chans (heap u c)))) \<and>
           (thr u i = Some (Waiting c) \<longrightarrow> wg (heap u c) = 0 \<longrightarrow>
              (\<exists>u'. step (EReturn i) u = Inr u' \<and>
                 thr u' i = Some (Returned c False
                   \<lparr>Val = val (heap u c), Err = err (heap u c), Shared = True\<rparr>))))"
  proof (intro impI conjI)
    assume c: "go_lookup (g_m (grp s)) key = Some c"
    from i have ir: "inv_reg s" by (simp add: inv_all_def)
    from registered[OF ir c] show "c < nxt s" by simp
    from c show h: "heap ?s' = (heap s)(c := (heap s c)\<lparr>forgotten := True\<rparr>)"
      by (simp add: Forget_eq)
    assume u: "run es' ?s' = Inr u"
    from registered[OF ir c] f(4) have a': "act ?s' c \<noteq> None" by auto
    from h have "forgotten (heap ?s' c)" by simp
    from forgotten_run[OF u i' a' this] show fu: "forgotten (heap u c)" .
    have iu: "inv_all u" by (rule inv_run[OF u i'])
    from forgotten_unjoinable[OF iu fu] show "joinable (grp u) k now \<noteq> Some c" .
    {
      assume "act u c = Some a" "astage a = AtLock"
      from forgotten_completion[OF iu this fu] show
        "\<exists>u'. step (ECall c) u = Inr u' \<and> grp u' = grp u \<and>
                 sent u' = sent u @
                   map (\<lambda>ch. (ch, \<lparr>Val = val (heap u c), Err = err (heap u c),
                                    Shared = (0 < dups (heap u c))\<rparr>)) (chans (heap u c))" .
    }
    {
      assume "thr u i = Some (Waiting c)" "wg (heap u c) = 0"
      then show "\<exists>u'. step (EReturn i) u = Inr u' \<and>
                 thr u' i = Some (Returned c False
                   \<lparr>Val = val (heap u c), Err = err (heap u c), Shared = True\<rparr>)"
        by (simp add: result_of_def)
    }
  qed
  show ?thesis
    by (intro conjI) (rule st, rule f(1), rule f(2), rule f(3), rule f(4), rule f(5), rule f(6),
      rule f(7), rule cr[THEN conjunct1], rule cr[THEN conjunct2], rule p)
qed

theorem C2_forget_witness:
  "run forget_before_events (init 0) = Inr forget_before_state \<and>
   go_lookup (g_m (grp forget_before_state)) ''key'' = Some 0 \<and>
   go_lookup (g_m (grp (Forget ''key'' forget_before_state))) ''key'' = None \<and>
   go_lookup (g_t (grp (Forget ''key'' forget_before_state))) ''key'' = None \<and>
   (\<exists>s''. Do_lock ''key'' 100000000000 100 100 (Forget ''key'' forget_before_state) =
            Inr (Created 1, s'')) \<and>
   run forget_after_events (Forget ''key'' forget_before_state) = Inr forget_after_state \<and>
   forgotten (heap forget_after_state 0) \<and>
   go_lookup (g_m (grp forget_after_state)) ''key'' = Some 1 \<and>
   joinable (grp forget_after_state) ''key'' 100 \<noteq> Some 0 \<and>
   (\<exists>u'. step (ECall 0) forget_after_state = Inr u' \<and> grp u' = grp forget_after_state \<and>
      sent u' = [(0, \<lparr>Val = Some ''bar'', Err = None, Shared = True\<rparr>)]) \<and>
   (\<exists>u'. step (EReturn 3) forget_after_state = Inr u' \<and>
      thr u' 3 = Some (Returned 0 False \<lparr>Val = Some ''bar'', Err = None, Shared = True\<rparr>))"
  using
    C2_forget[OF forget_before_run, where key = "''key''" and d = 100000000000 and now = 100
      and now' = 100 and c = 0 and es' = forget_after_events and u = forget_after_state
      and k = "''key''" and a = "\<lparr>akey = ''key'', afn = op_bar, astage = AtLock,
                                    areturned = [(Some ''bar'', None)]\<rparr>" and i = 3]
    forget_before_run forget_before_fields forget_after_run forget_after_fields
  by (simp del: step.simps)

subsection \<open>C3\<close>

text \<open>
  C3. In every state of an execution, the locked section of \<open>Do\<close> and of \<open>DoChan\<close> joins
  exactly when the key is registered and its stored expiry is strictly greater than the
  clock reading: then it only increments \<open>dups\<close> of the registered call (and, for \<open>DoChan\<close>,
  appends the new channel), leaving the registry, the world and the allocation counter as
  they are. In every other case it allocates a new call with wait group counter one, makes
  it the entry of the key and stores the expiry that \<open>getValidTime\<close> computes; the other
  keys keep their entries. As steps of a caller \<open>i\<close> with operation \<open>fn\<close>: a join starts no
  activation of \<open>doCall\<close> (the operation is not run for this caller), a create starts the
  one activation of the new call with \<open>fn\<close>.
\<close>

theorem C3_join_or_create:
  assumes "run es (init w) = Inr s"
  shows
    "if \<exists>c t. go_lookup (g_m (grp s)) key = Some c \<and> go_lookup (g_t (grp s)) key = Some t \<and> now <s t
     then \<exists>c. go_lookup (g_m (grp s)) key = Some c \<and>
            Do_lock key d now now' s =
              Inr (Joined c, s\<lparr>heap := (heap s)(c := (heap s c)\<lparr>dups := dups (heap s c) + 1\<rparr>)\<rparr>) \<and>
            DoChan_lock key d now now' s =
              Inr (nxtc s, Joined c,
                   s\<lparr>nxtc := Suc (nxtc s),
                     heap := (heap s)(c := (heap s c)\<lparr>dups := dups (heap s c) + 1,
                                                      chans := chans (heap s c) @ [nxtc s]\<rparr>)\<rparr>) \<and>
            (thr s i = None \<longrightarrow>
               (\<exists>s'. step (EDo i key d fn now now') s = Inr s' \<and> world s' = world s \<and>
                     act s' = act s \<and> thr s' i = Some (Waiting c)) \<and>
               (\<exists>s'. step (EDoChan i key d fn now now') s = Inr s' \<and> world s' = world s \<and>
                     act s' = act s \<and> thr s' i = Some (GotChan (nxtc s) c False)))
     else \<exists>g'. (\<forall>k. go_lookup (g_m g') k =
                       (if k = key then Some (nxt s) else go_lookup (g_m (grp s)) k)) \<and>
            (\<forall>k. go_lookup (g_t g') k =
                  (if k = key then Some (getValidTime d now') else go_lookup (g_t (grp s)) k)) \<and>
            Do_lock key d now now' s =
              Inr (Created (nxt s),
                   s\<lparr>grp := g', heap := (heap s)(nxt s := new_call\<lparr>wg := 1\<rparr>),
                     nxt := Suc (nxt s)\<rparr>) \<and>
            DoChan_lock key d now now' s =
              Inr (nxtc s, Created (nxt s),
                   s\<lparr>grp := g', nxtc := Suc (nxtc s),
                     heap := (heap s)(nxt s := new_call\<lparr>chans := [nxtc s], wg := 1\<rparr>),
                     nxt := Suc (nxt s)\<rparr>) \<and>
            (thr s i = None \<longrightarrow>
               (\<exists>s'. step (EDo i key d fn now now') s = Inr s' \<and> world s' = world s \<and>
                     act s' = (act s)(nxt s \<mapsto> start key fn) \<and>
                     thr s' i = Some (InCall (nxt s))) \<and>
               (\<exists>s'. step (EDoChan i key d fn now now') s = Inr s' \<and> world s' = world s \<and>
                     act s' = (act s)(nxt s \<mapsto> start key fn) \<and>
                     thr s' i = Some (GotChan (nxtc s) (nxt s) True)))"
proof -
  have "inv_all s" by (rule inv_reachable[OF assms])
  then have r: "reg_ok (grp s)" by (simp add: inv_all_def inv_reg_def)
  show ?thesis
  proof (cases "\<exists>c t. go_lookup (g_m (grp s)) key = Some c \<and>
                  go_lookup (g_t (grp s)) key = Some t \<and> now <s t")
    case True
    then obtain c t where c: "go_lookup (g_m (grp s)) key = Some c"
      and t: "go_lookup (g_t (grp s)) key = Some t" "now <s t"
      by blast
    from t have "now <s expiry_of (grp s) key"
      by (simp add: expiry_of_stored)
    note e = this
    from join_branch[OF c e] join_step[OF c e] c True show ?thesis
      by (simp only: if_True) blast
  next
    case False
    have "joinable (grp s) key now = None"
    proof (cases "go_lookup (g_m (grp s)) key")
      case None
      then show ?thesis by (simp add: joinable_None)
    next
      case (Some c)
      from r have "(go_lookup (g_m (grp s)) key = None) = (go_lookup (g_t (grp s)) key = None)"
        unfolding reg_ok_def by blast
      with Some obtain t where t: "go_lookup (g_t (grp s)) key = Some t"
        by auto
      with Some False have "\<not> now <s t" by blast
      with t show ?thesis by (simp add: joinable_None expiry_of_stored)
    qed
    note j = this
    from create_branch[OF r j, of d now'] obtain g' where g:
      "(\<forall>k. go_lookup (g_m g') k = (if k = key then Some (nxt s) else go_lookup (g_m (grp s)) k)) \<and>
       (\<forall>k. go_lookup (g_t g') k =
             (if k = key then Some (getValidTime d now') else go_lookup (g_t (grp s)) k)) \<and>
       Do_lock key d now now' s =
         Inr (Created (nxt s),
              s\<lparr>grp := g', heap := (heap s)(nxt s := new_call\<lparr>wg := 1\<rparr>), nxt := Suc (nxt s)\<rparr>) \<and>
       DoChan_lock key d now now' s =
         Inr (nxtc s, Created (nxt s),
              s\<lparr>grp := g', nxtc := Suc (nxtc s),
                heap := (heap s)(nxt s := new_call\<lparr>chans := [nxtc s], wg := 1\<rparr>),
                nxt := Suc (nxt s)\<rparr>)"
      by blast
    have q: "thr s i = None \<longrightarrow>
               (\<exists>s'. step (EDo i key d fn now now') s = Inr s' \<and> world s' = world s \<and>
                     act s' = (act s)(nxt s \<mapsto> start key fn) \<and>
                     thr s' i = Some (InCall (nxt s))) \<and>
               (\<exists>s'. step (EDoChan i key d fn now now') s = Inr s' \<and> world s' = world s \<and>
                     act s' = (act s)(nxt s \<mapsto> start key fn) \<and>
                     thr s' i = Some (GotChan (nxtc s) (nxt s) True))"
      using create_step_act[OF r j, of i d fn now'] by blast
    show ?thesis
      apply (simp only: False if_False)
      apply (rule exI[of _ g'])
      apply (rule conjI, rule g[THEN conjunct1])
      apply (rule conjI, rule g[THEN conjunct2, THEN conjunct1])
      apply (rule conjI, rule g[THEN conjunct2, THEN conjunct2, THEN conjunct1])
      apply (rule conjI, rule g[THEN conjunct2, THEN conjunct2, THEN conjunct2])
      apply (rule q)
      done
  qed
qed

theorem C3_join_or_create_witness:
  "case run [EDo 0 ''k'' 9000000000 op_bar 100 100] (init 0) of
     Inl f \<Rightarrow> False
   | Inr s \<Rightarrow>
       (\<exists>s'. Do_lock ''k'' 9000000000 108 108 s = Inr (Joined 0, s') \<and> dups (heap s' 0) = 1 \<and>
             nxt s' = 1) \<and>
       (\<exists>s'. DoChan_lock ''k'' 9000000000 109 109 s = Inr (0, Created 1, s') \<and>
             go_lookup (g_m (grp s')) ''k'' = Some 1 \<and>
             go_lookup (g_t (grp s')) ''k'' = Some 118)"
  using
    C3_join_or_create[where es = "[EDo 0 ''k'' 9000000000 op_bar 100 100]" and w = "0::nat"
      and s = "projr (run [EDo 0 ''k'' 9000000000 op_bar 100 100] (init 0))"
      and key = "''k''" and now = 108 and now' = 108 and d = 9000000000 and i = 1 and fn = op_bar]
    C3_join_or_create[where es = "[EDo 0 ''k'' 9000000000 op_bar 100 100]" and w = "0::nat"
      and s = "projr (run [EDo 0 ''k'' 9000000000 op_bar 100 100] (init 0))"
      and key = "''k''" and now = 109 and now' = 109 and d = 9000000000 and i = 1 and fn = op_bar]
  by (simp add: eval_defs op_bar_def)

subsection \<open>C4\<close>



subsection \<open>C5\<close>

text \<open>
  C5. In every state of an execution the activation of \<open>doCall\<close> of a call goes through its
  stages in order, and each step is enabled. Line 111 stores the pair \<open>fn\<close> returns and
  leaves the wait group, the registry and the channels alone. Line 112 brings the wait group
  counter from one to zero, with \<open>val\<close> and \<open>err\<close> as line 111 left them and the registry
  still untouched. The locked section then runs with the counter at zero: it deletes the key
  from both maps if the call is not forgotten and leaves the registry as it is if the call is
  forgotten, and it sends \<open>Result{c.val, c.err, c.dups > 0}\<close> on the channels of \<open>c.chans\<close>
  in list order, none of which is repeated or already holds a message, so no send blocks.
  After that the activation has no further step, and every channel of the call holds exactly
  one message, that result.
\<close>

theorem C5_completion_handling:
  assumes "run es (init w) = Inr s" and "act s c = Some a"
  shows
    "(astage a = AtFn \<longrightarrow>
        (\<exists>s'. step (ECall c) s = Inr s' \<and> map_option astage (act s' c) = Some AtDone \<and>
           val (heap s' c) = fst (fst (afn a (world s))) \<and>
           err (heap s' c) = snd (fst (afn a (world s))) \<and>
           wg (heap s' c) = 1 \<and> grp s' = grp s \<and> sent s' = sent s)) \<and>
     (astage a = AtDone \<longrightarrow>
        (\<exists>s'. step (ECall c) s = Inr s' \<and> map_option astage (act s' c) = Some AtLock \<and>
           wg (heap s c) = 1 \<and> wg (heap s' c) = 0 \<and>
           val (heap s' c) = val (heap s c) \<and> err (heap s' c) = err (heap s c) \<and>
           grp s' = grp s \<and> sent s' = sent s)) \<and>
     (astage a = AtLock \<longrightarrow>
        (\<exists>s'. step (ECall c) s = Inr s' \<and> map_option astage (act s' c) = Some Finished \<and>
           wg (heap s c) = 0 \<and> heap s' = heap s \<and>
           grp s' = (if forgotten (heap s c) then grp s
                     else \<lparr>g_m = go_delete (akey a) (g_m (grp s)),
                           g_t = go_delete (akey a) (g_t (grp s))\<rparr>) \<and>
           sent s' = sent s @
             map (\<lambda>ch. (ch, \<lparr>Val = val (heap s c), Err = err (heap s c),
                              Shared = (0 < dups (heap s c))\<rparr>)) (chans (heap s c)) \<and>
           distinct (chans (heap s c)) \<and>
           set (chans (heap s c)) \<inter> fst ` set (sent s) = {})) \<and>
     (astage a = Finished \<longrightarrow>
        step (ECall c) s = Inl NotEnabled \<and>
        (\<forall>ch \<in> set (chans (heap s c)).
           filter (\<lambda>m. fst m = ch) (sent s) =
             [(ch, \<lparr>Val = val (heap s c), Err = err (heap s c),
                    Shared = (0 < dups (heap s c))\<rparr>)]))"
proof -
  have i: "inv_all s" by (rule inv_reachable[OF assms(1)])
  then have ic: "inv_call s" and ich: "inv_chan s"
    by (simp_all add: inv_all_def)
  from ic assms(2) have w: "wg (heap s c) = (if astage a = AtFn \<or> astage a = AtDone then 1 else 0)"
    unfolding inv_call_def by blast
  have 1: "astage a = AtFn \<longrightarrow>
        (\<exists>s'. step (ECall c) s = Inr s' \<and> map_option astage (act s' c) = Some AtDone \<and>
           val (heap s' c) = fst (fst (afn a (world s))) \<and>
           err (heap s' c) = snd (fst (afn a (world s))) \<and>
           wg (heap s' c) = 1 \<and> grp s' = grp s \<and> sent s' = sent s)"
    using assms(2) w by (auto simp: doCall_fn_def split: prod.splits)
  have 2: "astage a = AtDone \<longrightarrow>
        (\<exists>s'. step (ECall c) s = Inr s' \<and> map_option astage (act s' c) = Some AtLock \<and>
           wg (heap s c) = 1 \<and> wg (heap s' c) = 0 \<and>
           val (heap s' c) = val (heap s c) \<and> err (heap s' c) = err (heap s c) \<and>
           grp s' = grp s \<and> sent s' = sent s)"
    using assms(2) w by (auto simp: doCall_done_def)
  have 3: "astage a = AtLock \<longrightarrow>
        (\<exists>s'. step (ECall c) s = Inr s' \<and> map_option astage (act s' c) = Some Finished \<and>
           wg (heap s c) = 0 \<and> heap s' = heap s \<and>
           grp s' = (if forgotten (heap s c) then grp s
                     else \<lparr>g_m = go_delete (akey a) (g_m (grp s)),
                           g_t = go_delete (akey a) (g_t (grp s))\<rparr>) \<and>
           sent s' = sent s @
             map (\<lambda>ch. (ch, \<lparr>Val = val (heap s c), Err = err (heap s c),
                              Shared = (0 < dups (heap s c))\<rparr>)) (chans (heap s c)) \<and>
           distinct (chans (heap s c)) \<and>
           set (chans (heap s c)) \<inter> fst ` set (sent s) = {})"
  proof
    assume l: "astage a = AtLock"
    from locked_section_sends[OF i assms(2) l] assms(2) w l show
      "\<exists>s'. step (ECall c) s = Inr s' \<and> map_option astage (act s' c) = Some Finished \<and>
           wg (heap s c) = 0 \<and> heap s' = heap s \<and>
           grp s' = (if forgotten (heap s c) then grp s
                     else \<lparr>g_m = go_delete (akey a) (g_m (grp s)),
                           g_t = go_delete (akey a) (g_t (grp s))\<rparr>) \<and>
           sent s' = sent s @
             map (\<lambda>ch. (ch, \<lparr>Val = val (heap s c), Err = err (heap s c),
                              Shared = (0 < dups (heap s c))\<rparr>)) (chans (heap s c)) \<and>
           distinct (chans (heap s c)) \<and>
           set (chans (heap s c)) \<inter> fst ` set (sent s) = {}"
      by (simp add: doCall_lock_def Let_def result_of_def)
  qed
  have 4: "astage a = Finished \<longrightarrow>
        step (ECall c) s = Inl NotEnabled \<and>
        (\<forall>ch \<in> set (chans (heap s c)).
           filter (\<lambda>m. fst m = ch) (sent s) =
             [(ch, \<lparr>Val = val (heap s c), Err = err (heap s c),
                    Shared = (0 < dups (heap s c))\<rparr>)])"
  proof (intro impI conjI ballI)
    assume f: "astage a = Finished"
    with assms(2) show "step (ECall c) s = Inl NotEnabled" by simp
    fix ch assume "ch \<in> set (chans (heap s c))"
    with ich assms(2) f have "(ch, result_of (heap s c) (0 < dups (heap s c))) \<in> set (sent s)"
      unfolding inv_chan_def by blast
    moreover from ich have "distinct (map fst (sent s))"
      unfolding inv_chan_def by blast
    ultimately show "filter (\<lambda>m. fst m = ch) (sent s) =
             [(ch, \<lparr>Val = val (heap s c), Err = err (heap s c),
                    Shared = (0 < dups (heap s c))\<rparr>)]"
      by (simp add: filter_fst_single result_of_def)
  qed
  from 1 2 3 4 show ?thesis by (intro conjI)
qed

theorem C5_completion_handling_witness:
  "case run [EDoChan 0 ''k'' 0 op_bar 100 100, EDoChan 1 ''k'' 0 op_bar 100 100] (init 0) of
     Inl f \<Rightarrow> False
   | Inr s0 \<Rightarrow>
       map_option astage (act s0 0) = Some AtFn \<and> wg (heap s0 0) = 1 \<and>
       (case step (ECall 0) s0 of
          Inl f \<Rightarrow> False
        | Inr s1 \<Rightarrow>
            map_option astage (act s1 0) = Some AtDone \<and> wg (heap s1 0) = 1 \<and>
            val (heap s1 0) = Some ''bar'' \<and>
            (case step (ECall 0) s1 of
               Inl f \<Rightarrow> False
             | Inr s2 \<Rightarrow>
                 map_option astage (act s2 0) = Some AtLock \<and> wg (heap s2 0) = 0 \<and>
                 go_lookup (g_m (grp s2)) ''k'' = Some 0 \<and>
                 chans (heap s2 0) = [0, 1] \<and> sent s2 = [] \<and>
                 (case step (ECall 0) s2 of
                    Inl f \<Rightarrow> False
                  | Inr s3 \<Rightarrow>
                      map_option astage (act s3 0) = Some Finished \<and>
                      go_lookup (g_m (grp s3)) ''k'' = None \<and>
                      sent s3 = [(0, \<lparr>Val = Some ''bar'', Err = None, Shared = True\<rparr>),
                                 (1, \<lparr>Val = Some ''bar'', Err = None, Shared = True\<rparr>)] \<and>
                      step (ECall 0) s3 = Inl NotEnabled)))"
  using
    C5_completion_handling[where es = "[EDoChan 0 ''k'' 0 op_bar 100 100, EDoChan 1 ''k'' 0 op_bar 100 100]" and w = "0::nat"
      and s = "projr (run ([EDoChan 0 ''k'' 0 op_bar 100 100, EDoChan 1 ''k'' 0 op_bar 100 100]) (init 0))" and c = 0
      and a = "the (act (projr (run ([EDoChan 0 ''k'' 0 op_bar 100 100, EDoChan 1 ''k'' 0 op_bar 100 100]) (init 0))) 0)"]
    C5_completion_handling[where es = "[EDoChan 0 ''k'' 0 op_bar 100 100, EDoChan 1 ''k'' 0 op_bar 100 100, ECall 0]" and w = "0::nat"
      and s = "projr (run ([EDoChan 0 ''k'' 0 op_bar 100 100, EDoChan 1 ''k'' 0 op_bar 100 100, ECall 0]) (init 0))" and c = 0
      and a = "the (act (projr (run ([EDoChan 0 ''k'' 0 op_bar 100 100, EDoChan 1 ''k'' 0 op_bar 100 100, ECall 0]) (init 0))) 0)"]
    C5_completion_handling[where es = "[EDoChan 0 ''k'' 0 op_bar 100 100, EDoChan 1 ''k'' 0 op_bar 100 100, ECall 0, ECall 0]" and w = "0::nat"
      and s = "projr (run ([EDoChan 0 ''k'' 0 op_bar 100 100, EDoChan 1 ''k'' 0 op_bar 100 100, ECall 0, ECall 0]) (init 0))" and c = 0
      and a = "the (act (projr (run ([EDoChan 0 ''k'' 0 op_bar 100 100, EDoChan 1 ''k'' 0 op_bar 100 100, ECall 0, ECall 0]) (init 0))) 0)"]
    C5_completion_handling[where es = "[EDoChan 0 ''k'' 0 op_bar 100 100, EDoChan 1 ''k'' 0 op_bar 100 100, ECall 0, ECall 0, ECall 0]" and w = "0::nat"
      and s = "projr (run ([EDoChan 0 ''k'' 0 op_bar 100 100, EDoChan 1 ''k'' 0 op_bar 100 100, ECall 0, ECall 0, ECall 0]) (init 0))" and c = 0
      and a = "the (act (projr (run ([EDoChan 0 ''k'' 0 op_bar 100 100, EDoChan 1 ''k'' 0 op_bar 100 100, ECall 0, ECall 0, ECall 0]) (init 0))) 0)"]
  by (simp add: eval_defs op_bar_def)

subsection \<open>C6\<close>

text \<open>
  C6. The Validity Clock maps a zero duration to the sentinel \<open>MaxInt64\<close>, and a call
  registered with that expiry is joinable at every clock reading other than \<open>MaxInt64\<close>
  itself (a reading the system clock never gives); it maps a nonzero duration to the clock
  reading plus the duration divided by one second, truncated towards zero, which is the sum
  of the two as integers whenever that sum is an \<open>int64\<close>.
\<close>

theorem C6_validity_clock:
  "getValidTime 0 now = MaxInt64 \<and>
   (go_lookup (g_m g) key = Some c \<longrightarrow> expiry_of g key = getValidTime 0 now \<longrightarrow>
      now' \<noteq> MaxInt64 \<longrightarrow> joinable g key now' = Some c) \<and>
   (d \<noteq> 0 \<longrightarrow> getValidTime d now = now + word_of_int (sint d sdiv 1000000000)) \<and>
   (d \<noteq> 0 \<longrightarrow> - (2 ^ 63) \<le> sint now + sint d sdiv 1000000000 \<longrightarrow>
      sint now + sint d sdiv 1000000000 < 2 ^ 63 \<longrightarrow>
      sint (getValidTime d now) = sint now + sint d sdiv 1000000000)"
proof -
  have a: "getValidTime 0 now = MaxInt64"
    by (simp add: getValidTime_def)
  have b: "go_lookup (g_m g) key = Some c \<longrightarrow> expiry_of g key = getValidTime 0 now \<longrightarrow>
      now' \<noteq> MaxInt64 \<longrightarrow> joinable g key now' = Some c"
    by (simp add: a joinable_Some max_sless)
  have c: "d \<noteq> 0 \<longrightarrow> getValidTime d now = now + word_of_int (sint d sdiv 1000000000)"
    by (simp add: getValidTime_def go_div_def Second_def)
  from a b c sint_getValidTime[of d now] show ?thesis
    by blast
qed

theorem C6_validity_clock_witness:
  "getValidTime 0 100 = MaxInt64 \<and>
   joinable \<lparr>g_m = Some [''k'' \<mapsto> 0], g_t = Some [''k'' \<mapsto> MaxInt64]\<rparr> ''k'' 200 = Some 0 \<and>
   getValidTime 2500000000 100 = 102 \<and>
   sint (getValidTime 2500000000 100) = 102 \<and>
   getValidTime (- 2500000000) 100 = 98"
  using C6_validity_clock[where now = 100 and now' = 200 and key = "''k''" and c = 0
      and g = "\<lparr>g_m = Some [''k'' \<mapsto> 0], g_t = Some [''k'' \<mapsto> MaxInt64]\<rparr>" and d = 2500000000]
    C6_validity_clock[where now = 100 and d = "- 2500000000"]
  by (simp add: go_lookup_def expiry_of_def MaxInt64_def signed_divide_int_def)

subsection \<open>C7\<close>




subsection \<open>C8\<close>





subsection \<open>C9\<close>

text \<open>
  C9. On a \<open>Group\<close> whose two maps are nil, the locked sections of \<open>Do\<close> and \<open>DoChan\<close> do
  not panic: they make both maps and register the new call, so that each map has exactly
  the one key. \<open>Forget\<close> on a nil registry changes nothing, and in every state of an
  execution \<open>Forget\<close> of a key that has no registered call leaves the whole state as it is.
  \<open>Forget\<close> never fails.
\<close>

theorem C9_zero_value_group:
  "(grp s = zero_Group \<longrightarrow>
      Do_lock key d now now' s =
        Inr (Created (nxt s),
             s\<lparr>grp := \<lparr>g_m = Some [key \<mapsto> nxt s], g_t = Some [key \<mapsto> getValidTime d now']\<rparr>,
               heap := (heap s)(nxt s := new_call\<lparr>wg := 1\<rparr>), nxt := Suc (nxt s)\<rparr>) \<and>
      DoChan_lock key d now now' s =
        Inr (nxtc s, Created (nxt s),
             s\<lparr>grp := \<lparr>g_m = Some [key \<mapsto> nxt s], g_t = Some [key \<mapsto> getValidTime d now']\<rparr>,
               nxtc := Suc (nxtc s),
               heap := (heap s)(nxt s := new_call\<lparr>chans := [nxtc s], wg := 1\<rparr>),
               nxt := Suc (nxt s)\<rparr>) \<and>
      step (EForget key) s = Inr s) \<and>
   (run es (init w) = Inr u \<longrightarrow> go_lookup (g_m (grp u)) key = None \<longrightarrow>
      step (EForget key) u = Inr u) \<and>
   (\<exists>u'. step (EForget key) u = Inr u')"
  using zero_Group_Do[of s key d now now'] zero_Group_DoChan[of s key d now now']
    zero_Group_Forget[of s key] Forget_unregistered[OF inv_reachable, of es w u key]
  by simp

theorem C9_zero_value_group_witness:
  "grp (init (0::nat) :: (nat, string, string) state) = zero_Group \<and>
   (\<exists>s'. Do_lock ''k'' 9000000000 100 100 (init (0::nat) :: (nat, string, string) state) =
            Inr (Created 0, s') \<and>
          g_m (grp s') = Some [''k'' \<mapsto> 0] \<and> g_t (grp s') = Some [''k'' \<mapsto> 109]) \<and>
   (\<exists>s'. DoChan_lock ''k'' 0 100 100 (init (0::nat) :: (nat, string, string) state) =
            Inr (0, Created 0, s') \<and>
          g_m (grp s') = Some [''k'' \<mapsto> 0] \<and> g_t (grp s') = Some [''k'' \<mapsto> MaxInt64]) \<and>
   step (EForget ''k'') (init (0::nat) :: (nat, string, string) state) = Inr (init 0) \<and>
   (case run [EDo 0 ''k'' 9000000000 op_bar 100 100] (init 0) of
      Inl f \<Rightarrow> False
    | Inr u \<Rightarrow> go_lookup (g_m (grp u)) ''j'' = None \<and> step (EForget ''j'') u = Inr u)"
  using
    C9_zero_value_group[where s = "init (0::nat) :: (nat, string, string) state"
      and key = "''k''" and d = 9000000000 and now = 100 and now' = 100
      and es = "[]" and w = "0::nat" and u = "init (0::nat) :: (nat, string, string) state"]
    C9_zero_value_group[where s = "init (0::nat) :: (nat, string, string) state"
      and key = "''k''" and d = 0 and now = 100 and now' = 100
      and es = "[]" and w = "0::nat" and u = "init (0::nat) :: (nat, string, string) state"]
    C9_zero_value_group[where s = "init (0::nat) :: (nat, string, string) state"
      and key = "''j''" and d = 0 and now = 100 and now' = 100
      and es = "[EDo 0 ''k'' 9000000000 op_bar 100 100]" and w = "0::nat"
      and u = "projr (run [EDo 0 ''k'' 9000000000 op_bar 100 100] (init 0))"]
  by (simp add: eval_defs op_bar_def)

subsection \<open>C10\<close>

text \<open>
  C10. A call created with a nonzero validity of less than one second (in absolute value)
  is stored with the clock reading of its creation as expiry. No caller that reads a clock
  value not below that reading ever joins it, whatever happens in between; the next caller
  for the key creates a fresh call.
\<close>

theorem C10_subsecond_never_joinable:
  assumes "run es (init w) = Inr s"
    and "d \<noteq> 0" and "- 1000000000 < sint d" and "sint d < 1000000000"
    and "e = EDo i key d fn now0 now \<or> e = EDoChan i key d fn now0 now"
    and "joinable (grp s) key now0 = None"
    and "step e s = Inr s1"
    and "run es' s1 = Inr s2"
    and "now \<le>s now'"
  shows "go_lookup (g_m (grp s1)) key = Some (nxt s) \<and>
         go_lookup (g_t (grp s1)) key = Some now \<and>
         joinable (grp s1) key now' = None \<and>
         (\<exists>s3. Do_lock key d' now' now'' s1 = Inr (Created (nxt s1), s3)) \<and>
         (\<exists>s3. DoChan_lock key d' now' now'' s1 = Inr (nxtc s1, Created (nxt s1), s3)) \<and>
         joinable (grp s2) key now' \<noteq> Some (nxt s)"
proof -
  have i: "inv_all s" by (rule inv_reachable[OF assms(1)])
  then have r: "reg_ok (grp s)" by (simp add: inv_all_def inv_reg_def)
  have i1: "inv_all s1" by (rule inv_step[OF assms(7) i])
  then have r1: "reg_ok (grp s1)" by (simp add: inv_all_def inv_reg_def)
  have v: "getValidTime d now = now"
    using assms(2-4) by (simp add: getValidTime_def go_div_small)
  from create_step[OF assms(5,7) r assms(6)] v
  have c: "nxt s1 = Suc (nxt s)" "go_lookup (g_m (grp s1)) key = Some (nxt s)"
    "go_lookup (g_t (grp s1)) key = Some now"
    by simp_all
  have n: "\<not> now' <s now" by (rule not_sless_of_sle[OF assms(9)])
  from c(3) n have j1: "joinable (grp s1) key now' = None"
    by (simp add: joinable_None expiry_of_def)
  from expiry_kept_run[OF assms(8) i1, of "nxt s" key now] c
  have "go_lookup (g_m (grp s2)) key = Some (nxt s) \<longrightarrow> go_lookup (g_t (grp s2)) key = Some now"
    by simp
  with n have j2: "joinable (grp s2) key now' \<noteq> Some (nxt s)"
    by (auto simp: joinable_Some expiry_of_def)
  from c(2,3) j1 create_again[OF r1 j1] j2 show ?thesis by blast
qed

theorem C10_subsecond_never_joinable_witness:
  "case step (EDo 0 ''k'' 500000000 op_bar 100 100) (init 0) of
     Inl f \<Rightarrow> False
   | Inr s1 \<Rightarrow>
       go_lookup (g_m (grp s1)) ''k'' = Some 0 \<and>
       go_lookup (g_t (grp s1)) ''k'' = Some 100 \<and>
       joinable (grp s1) ''k'' 100 = None \<and>
       (case run [EDo 1 ''k'' 500000000 op_bar 100 100] s1 of
          Inl f \<Rightarrow> False
        | Inr s2 \<Rightarrow> joinable (grp s2) ''k'' 100 \<noteq> Some 0)"
  using C10_subsecond_never_joinable[where es = "[]" and w = "0::nat" and s = "init 0"
      and d = 500000000 and e = "EDo 0 ''k'' 500000000 op_bar 100 100"
      and i = 0 and key = "''k''" and fn = op_bar and ?now0.0 = 100 and now = 100
      and ?s1.0 = "projr (step (EDo 0 ''k'' 500000000 op_bar 100 100) (init 0))"
      and es' = "[EDo 1 ''k'' 500000000 op_bar 100 100]"
      and ?s2.0 = "projr (run [EDo 1 ''k'' 500000000 op_bar 100 100]
                      (projr (step (EDo 0 ''k'' 500000000 op_bar 100 100) (init 0))))"
      and now' = 100]
  by (simp add: eval_defs op_bar_def)

end
